theory Spec2Isabelle
  imports Main "HOL-Library.AList" "HOL-Library.Word" "HOL-Library.Multiset"
begin

section \<open>The session store of src/mcp/sequentialthinking.go\<close>

text \<open>
  The Go code keeps thoughts behind pointers (\<^verbatim>\<open>[]*Thought\<close>, \<^verbatim>\<open>*int\<close>) and
  works on copies of them. The model keeps that: a thought object lives at an address
  of an explicit memory, a session holds the list of the addresses of its thoughts,
  and \<^verbatim>\<open>ParentIndex\<close> is an optional address of an int cell (\<open>None\<close> is nil).
  The pointers of a thought slice are never nil: the code only ever puts the address of
  an object it has just allocated into one. A \<^verbatim>\<open>ThinkingSession\<close> struct itself
  is handled by value: every \<^verbatim>\<open>*ThinkingSession\<close> that the store holds or hands
  out is a struct allocated by the call that produced it (the literal of StartThinking,
  \<^verbatim>\<open>&sessionCopy\<close> of clone, the branch literal) and retained by nobody else.

  Go's \<^verbatim>\<open>int\<close> has 64 bits. The version of a session is a 64-bit word:
  \<^verbatim>\<open>oldVersion + 1\<close> (line 143) wraps from \<open>2^63 - 1\<close> to \<open>- 2^63\<close>, as
  \<open>+\<close> on words does, \<open>sint\<close> reads the number that Go sees, and the comparison of
  line 138 is equality of words. The other ints are modelled as \<open>int\<close>: the only
  additions on them are \<^verbatim>\<open>len(...) + 1\<close>, on lengths of slices in memory, which
  cannot come near \<open>2^63\<close>, and \<^verbatim>\<open>*args.ReviseStep - 1\<close> wraps for the least
  int only, to a step index that is out of range as the unwrapped one is.
  \<^verbatim>\<open>time.Time\<close> is a number; what \<^verbatim>\<open>time.Now()\<close> returns is an input of
  each handler: \<open>now i\<close> is the reading of the i-th call of \<^verbatim>\<open>time.Now()\<close> in
  program order.
\<close>

type_synonym addr = nat
type_synonym time = int

record Thought =
  Index :: int
  Content :: string
  Created :: time
  Revised :: bool
  ParentIndex :: "addr option"

record ThinkingSession =
  ID :: string
  Problem :: string
  Thoughts :: "addr list"
  CurrentThought :: int
  EstimatedTotal :: int
  Status :: string
  Created_s :: time
  LastActivity :: time
  Branches :: "string list"
  Version :: "64 word"

text \<open>
  The memory: the thought objects, the int cells that a \<^verbatim>\<open>ParentIndex\<close> points
  to, and the next free thought address. Allocation takes the next free address, so
  an allocated object is never handed out twice.
\<close>

record memory =
  thought_at :: "addr \<Rightarrow> Thought"
  int_at :: "addr \<Rightarrow> int"
  brk :: addr

definition new_Thought :: "Thought \<Rightarrow> memory \<Rightarrow> addr \<times> memory" where
  "new_Thought t m =
     (brk m, m\<lparr>thought_at := (thought_at m)(brk m := t), brk := Suc (brk m)\<rparr>)"

text \<open>
  \<^verbatim>\<open>deepCopyThoughts\<close> (lines 213-220): for each pointer of the slice,
  \<^verbatim>\<open>t2 := *t\<close> copies the struct (the \<^verbatim>\<open>ParentIndex\<close> pointer with it) and
  \<^verbatim>\<open>&t2\<close> is a new object.
\<close>

fun deepCopyThoughts :: "addr list \<Rightarrow> memory \<Rightarrow> addr list \<times> memory" where
  "deepCopyThoughts [] m = ([], m)"
| "deepCopyThoughts (t # thoughts) m =
     (let (t2, m1) = new_Thought (thought_at m t) m;
          (thoughtsCopy, m2) = deepCopyThoughts thoughts m1
      in (t2 # thoughtsCopy, m2))"

text \<open>
  \<^verbatim>\<open>clone\<close> (lines 56-61): a copy of the struct, with the thoughts copied by
  \<^verbatim>\<open>deepCopyThoughts\<close> and the branches by \<^verbatim>\<open>slices.Clone\<close> (a list of
  immutable strings, which in the model is the same value).
\<close>

definition clone :: "ThinkingSession \<Rightarrow> memory \<Rightarrow> ThinkingSession \<times> memory" where
  "clone s m =
     (let sessionCopy = s;
          (thoughtsCopy, m1) = deepCopyThoughts (Thoughts s) m
      in (sessionCopy\<lparr>Thoughts := thoughtsCopy, Branches := Branches s\<rparr>, m1))"

text \<open>
  The store: the map from session id to session, as an association list with one
  entry per key, and the memory beside it. Go ranges over a map in no fixed order;
  where the code does (\<^verbatim>\<open>SessionsSnapshot\<close>), the model takes the order of the
  list.
\<close>

record world =
  store1 :: "(string \<times> ThinkingSession) list"
  mem :: memory

definition NewSessionStore :: "(string \<times> ThinkingSession) list" where
  "NewSessionStore = []"

definition Session :: "world \<Rightarrow> string \<Rightarrow> ThinkingSession option" where
  "Session w sid = map_of (store1 w) sid"

definition SetSession :: "ThinkingSession \<Rightarrow> world \<Rightarrow> world" where
  "SetSession session w = w\<lparr>store1 := AList.update (ID session) session (store1 w)\<rparr>"

datatype error =
    SessionNotFound string
  | InvalidStepNumber int
  | InvalidURI
  | InvalidURIScheme string

text \<open>
  \<^verbatim>\<open>CompareAndSwap\<close> (lines 111-148). The two locked sections of the loop body
  are functions of their own; the loop is \<open>CompareAndSwap\<close> below. The update
  function works on the copy it is given and on the memory; what the Go closure leaves
  in the variables it captures is the second component \<open>'a\<close> of its result.
\<close>

type_synonym 'a updateFunc =
  "ThinkingSession \<Rightarrow> memory \<Rightarrow> (error + ThinkingSession \<times> 'a) \<times> memory"

text \<open>Lines 114-123, under the read lock: look the session up, copy it, read its version.\<close>

definition CompareAndSwap_read ::
  "string \<Rightarrow> world \<Rightarrow> (error + ThinkingSession \<times> 64 word) \<times> world" where
  "CompareAndSwap_read sessionID w =
     (case map_of (store1 w) sessionID of
        None \<Rightarrow> (Inl (SessionNotFound sessionID), w)
      | Some current \<Rightarrow>
          (let (sessionCopy, m1) = clone current (mem w);
               oldVersion = Version current
           in (Inr (sessionCopy, oldVersion), w\<lparr>mem := m1\<rparr>)))"

text \<open>Lines 132-146, under the write lock: check the version and store the update.\<close>

datatype commit = Committed | Missing | Retry

definition CompareAndSwap_commit ::
  "string \<Rightarrow> 64 word \<Rightarrow> ThinkingSession \<Rightarrow> world \<Rightarrow> commit \<times> world" where
  "CompareAndSwap_commit sessionID oldVersion updated w =
     (case map_of (store1 w) sessionID of
        None \<Rightarrow> (Missing, w)
      | Some current \<Rightarrow>
          if Version current \<noteq> oldVersion then (Retry, w)
          else (Committed,
                w\<lparr>store1 := AList.update sessionID (updated\<lparr>Version := oldVersion + 1\<rparr>)
                                (store1 w)\<rparr>))"

partial_function (option) CompareAndSwap ::
  "string \<Rightarrow> 'a updateFunc \<Rightarrow> world \<Rightarrow> ((error + 'a) \<times> world) option" where
  "CompareAndSwap sessionID updateFunc w =
     (case CompareAndSwap_read sessionID w of
        (Inl err, w1) \<Rightarrow> Some (Inl err, w1)
      | (Inr (sessionCopy, oldVersion), w1) \<Rightarrow>
          (case updateFunc sessionCopy (mem w1) of
             (Inl err, m2) \<Rightarrow> Some (Inl err, w1\<lparr>mem := m2\<rparr>)
           | (Inr (updated, out), m2) \<Rightarrow>
               (case CompareAndSwap_commit sessionID oldVersion updated (w1\<lparr>mem := m2\<rparr>) of
                  (Retry, w3) \<Rightarrow> CompareAndSwap sessionID updateFunc w3
                | (Missing, w3) \<Rightarrow> Some (Inl (SessionNotFound sessionID), w3)
                | (Committed, w3) \<Rightarrow> Some (Inr out, w3))))"

declare CompareAndSwap.simps [code]


subsection \<open>The handlers\<close>

record StartThinkingArgs =
  Problem_a :: string
  SessionID_a :: string
  EstimatedSteps :: int

record ContinueThinkingArgs =
  SessionID :: string
  Thought_a :: string
  NextNeeded :: "bool option"
  ReviseStep :: "int option"
  CreateBranch :: bool
  EstimatedTotal_a :: int

record ReviewThinkingArgs =
  SessionID_r :: string

text \<open>The verb \<^verbatim>\<open>%d\<close> of \<^verbatim>\<open>fmt\<close>: an int in decimal.\<close>

fun digits :: "nat \<Rightarrow> string" where
  "digits n =
     (if n < 10 then [''0123456789'' ! n]
      else digits (n div 10) @ [''0123456789'' ! (n mod 10)])"

declare digits.simps [simp del]

definition fmt_d :: "int \<Rightarrow> string" where
  "fmt_d i = (if i < 0 then CHR ''-'' # digits (nat (- i)) else digits (nat i))"

text \<open>
  \<^verbatim>\<open>randText\<close> (lines 482-490): \<open>src\<close> is the 26 bytes that
  \<^verbatim>\<open>rand.Read\<close> has written.
\<close>

definition base32alphabet :: string where
  "base32alphabet = ''ABCDEFGHIJKLMNOPQRSTUVWXYZ234567''"

definition randText :: "8 word list \<Rightarrow> string" where
  "randText src = map (\<lambda>b. base32alphabet ! (unat b mod 32)) src"

text \<open>
  The texts of the results, each the \<^verbatim>\<open>fmt.Sprintf\<close> of its handler (lines 250,
  281, 323 and 379).
\<close>

definition started_text :: "string \<Rightarrow> string \<Rightarrow> int \<Rightarrow> string" where
  "started_text sessionID problem estimatedSteps =
     ''Started thinking session '' @ [CHR 0x27] @ sessionID @ [CHR 0x27]
     @ '' for problem: '' @ problem @ [CHR 0x0A]
     @ ''Estimated steps: '' @ fmt_d estimatedSteps @ [CHR 0x0A]
     @ ''Ready for your first thought.''"

definition revised_text :: "int \<Rightarrow> string \<Rightarrow> string \<Rightarrow> string" where
  "revised_text k sessionID thought =
     ''Revised step '' @ fmt_d k @ '' in session '' @ [CHR 0x27] @ sessionID
     @ [CHR 0x27, CHR '':'', CHR 0x0A] @ thought"

definition branch_text :: "string \<Rightarrow> string \<Rightarrow> string" where
  "branch_text branchID sessionID =
     ''Created branch '' @ [CHR 0x27] @ branchID @ [CHR 0x27]
     @ '' from session '' @ [CHR 0x27] @ sessionID @ [CHR 0x27]
     @ ''. You can now continue thinking in either session.''"

definition append_text :: "string \<Rightarrow> string \<Rightarrow> string \<Rightarrow> string \<Rightarrow> string" where
  "append_text sessionID progress thought statusMsg =
     ''Session '' @ [CHR 0x27] @ sessionID @ [CHR 0x27] @ '' - '' @ progress
     @ [CHR '':'', CHR 0x0A] @ thought @ statusMsg"

text \<open>\<^verbatim>\<open>StartThinking\<close> (lines 223-255).\<close>

definition StartThinking ::
  "StartThinkingArgs \<Rightarrow> 8 word list \<Rightarrow> (nat \<Rightarrow> time) \<Rightarrow> world \<Rightarrow> (error + string) \<times> world" where
  "StartThinking args src now w =
     (let sessionID = (if SessionID_a args = [] then randText src else SessionID_a args);
          estimatedSteps = (if EstimatedSteps args = 0 then 5 else EstimatedSteps args);
          session = \<lparr>ID = sessionID, Problem = Problem_a args, Thoughts = [],
                     CurrentThought = 0, EstimatedTotal = estimatedSteps,
                     Status = ''active'', Created_s = now 0, LastActivity = now 1,
                     Branches = [], Version = 0\<rparr>;
          w1 = SetSession session w
      in (Inr (started_text sessionID (Problem_a args) estimatedSteps), w1))"

text \<open>The closure of the revision (lines 263-273); \<open>k\<close> is \<^verbatim>\<open>*args.ReviseStep\<close>.\<close>

definition reviseFunc :: "ContinueThinkingArgs \<Rightarrow> int \<Rightarrow> (nat \<Rightarrow> time) \<Rightarrow> unit updateFunc" where
  "reviseFunc args k now session m =
     (let stepIndex = k - 1
      in if stepIndex < 0 \<or> stepIndex \<ge> int (length (Thoughts session))
         then (Inl (InvalidStepNumber k), m)
         else
           (let t = Thoughts session ! nat stepIndex;
                m1 = m\<lparr>thought_at := (thought_at m)(t := (thought_at m t)\<lparr>Content := Thought_a args\<rparr>)\<rparr>;
                m2 = m1\<lparr>thought_at := (thought_at m1)(t := (thought_at m1 t)\<lparr>Revised := True\<rparr>)\<rparr>;
                session1 = session\<lparr>LastActivity := now 0\<rparr>
            in (Inr (session1, ()), m2)))"

text \<open>
  The closure of the branch (lines 293-312). Its result carries the captured
  \<^verbatim>\<open>branchID\<close> and \<^verbatim>\<open>branchSession\<close>.
\<close>

definition branchFunc ::
  "ContinueThinkingArgs \<Rightarrow> (nat \<Rightarrow> time) \<Rightarrow> (string \<times> ThinkingSession) updateFunc" where
  "branchFunc args now session m =
     (let branchID = SessionID args @ ''_branch_'' @ fmt_d (int (length (Branches session)) + 1);
          session1 = session\<lparr>Branches := Branches session @ [branchID]\<rparr>;
          session2 = session1\<lparr>LastActivity := now 0\<rparr>;
          (thoughtsCopy, m1) = deepCopyThoughts (Thoughts session2) m;
          branchSession = \<lparr>ID = branchID,
                           Problem = Problem session2 @ '' (Alternative branch)'',
                           Thoughts = thoughtsCopy,
                           CurrentThought = int (length (Thoughts session2)),
                           EstimatedTotal = EstimatedTotal session2,
                           Status = ''active'', Created_s = now 1, LastActivity = now 2,
                           Branches = [], Version = 0\<rparr>
      in (Inr (session2, (branchID, branchSession)), m1))"

text \<open>
  The closure of the append (lines 335-371). Its result carries the captured
  \<^verbatim>\<open>thoughtID\<close>, \<^verbatim>\<open>progress\<close> and \<^verbatim>\<open>statusMsg\<close>.
\<close>

definition progress_text :: "int \<Rightarrow> int \<Rightarrow> string" where
  "progress_text thoughtID estimatedTotal =
     ''Step '' @ fmt_d thoughtID
     @ (if estimatedTotal > 0 then '' of ~'' @ fmt_d estimatedTotal else [])"

definition statusMsg_text :: "string \<Rightarrow> string" where
  "statusMsg_text status =
     (if status = ''completed''
      then [CHR 0x0A, CHR 0xE2, CHR 0x9C, CHR 0x93] @ '' Thinking process completed!''
      else [CHR 0x0A] @ ''Ready for next thought...'')"

definition appendFunc ::
  "ContinueThinkingArgs \<Rightarrow> (nat \<Rightarrow> time) \<Rightarrow> (int \<times> string \<times> string) updateFunc" where
  "appendFunc args now session m =
     (let thoughtID = int (length (Thoughts session)) + 1;
          (thought, m1) = new_Thought \<lparr>Index = thoughtID, Content = Thought_a args,
                                       Created = now 0, Revised = False,
                                       ParentIndex = None\<rparr> m;
          session1 = session\<lparr>Thoughts := Thoughts session @ [thought]\<rparr>;
          session2 = session1\<lparr>CurrentThought := thoughtID\<rparr>;
          session3 = session2\<lparr>LastActivity := now 1\<rparr>;
          session4 = (if EstimatedTotal_a args > 0
                      then session3\<lparr>EstimatedTotal := EstimatedTotal_a args\<rparr> else session3);
          session5 = (if NextNeeded args = Some False
                      then session4\<lparr>Status := ''completed''\<rparr> else session4);
          progress = progress_text thoughtID (EstimatedTotal session5);
          statusMsg = statusMsg_text (Status session5)
      in (Inr (session5, (thoughtID, progress, statusMsg)), m1))"

text \<open>\<^verbatim>\<open>ContinueThinking\<close> (lines 258-384).\<close>

definition ContinueThinking ::
  "ContinueThinkingArgs \<Rightarrow> (nat \<Rightarrow> time) \<Rightarrow> world \<Rightarrow> ((error + string) \<times> world) option" where
  "ContinueThinking args now w =
     (case ReviseStep args of
        Some k \<Rightarrow>
          (case CompareAndSwap (SessionID args) (reviseFunc args k now) w of
             None \<Rightarrow> None
           | Some (Inl err, w1) \<Rightarrow> Some (Inl err, w1)
           | Some (Inr u, w1) \<Rightarrow>
               Some (Inr (revised_text k (SessionID args) (Thought_a args)), w1))
      | None \<Rightarrow>
          if CreateBranch args then
            (case CompareAndSwap (SessionID args) (branchFunc args now) w of
               None \<Rightarrow> None
             | Some (Inl err, w1) \<Rightarrow> Some (Inl err, w1)
             | Some (Inr (branchID, branchSession), w1) \<Rightarrow>
                 (let w2 = SetSession branchSession w1
                  in Some (Inr (branch_text branchID (SessionID args)), w2)))
          else
            (case CompareAndSwap (SessionID args) (appendFunc args now) w of
               None \<Rightarrow> None
             | Some (Inl err, w1) \<Rightarrow> Some (Inl err, w1)
             | Some (Inr (thoughtID, progress, statusMsg), w1) \<Rightarrow>
                 Some (Inr (append_text (SessionID args) progress (Thought_a args) statusMsg),
                       w1)))"


text \<open>\<^verbatim>\<open>SessionSnapshot\<close> (lines 171-181) and \<^verbatim>\<open>SessionsSnapshot\<close> (lines 158-167).\<close>

definition SessionSnapshot :: "string \<Rightarrow> world \<Rightarrow> ThinkingSession option \<times> world" where
  "SessionSnapshot sid w =
     (case map_of (store1 w) sid of
        None \<Rightarrow> (None, w)
      | Some session \<Rightarrow>
          (let (c, m1) = clone session (mem w) in (Some c, w\<lparr>mem := m1\<rparr>)))"

fun clone_all :: "(string \<times> ThinkingSession) list \<Rightarrow> memory \<Rightarrow> ThinkingSession list \<times> memory" where
  "clone_all [] m = ([], m)"
| "clone_all ((k, session) # rest) m =
     (let (c, m1) = clone session m;
          (cs, m2) = clone_all rest m1
      in (c # cs, m2))"

definition SessionsSnapshot :: "world \<Rightarrow> ThinkingSession list \<times> world" where
  "SessionsSnapshot w =
     (let (sessions, m1) = clone_all (store1 w) (mem w) in (sessions, w\<lparr>mem := m1\<rparr>))"

text \<open>\<^verbatim>\<open>ReviewThinking\<close> (lines 387-423).\<close>

fun strings_Join :: "string list \<Rightarrow> string \<Rightarrow> string" where
  "strings_Join [] sep = []"
| "strings_Join [x] sep = x"
| "strings_Join (x # xs) sep = x @ sep @ strings_Join xs sep"

fun review_lines :: "memory \<Rightarrow> addr list \<Rightarrow> int \<Rightarrow> string" where
  "review_lines m [] i = []"
| "review_lines m (thought # rest) i =
     (let status = (if Revised (thought_at m thought) then '' (revised)'' else [])
      in fmt_d (i + 1) @ ''. '' @ Content (thought_at m thought) @ status @ [CHR 0x0A]
         @ review_lines m rest (i + 1))"

definition review_text :: "memory \<Rightarrow> ThinkingSession \<Rightarrow> string" where
  "review_text m sessionSnapshot =
     ''=== Thinking Review: '' @ ID sessionSnapshot @ '' ==='' @ [CHR 0x0A]
     @ ''Problem: '' @ Problem sessionSnapshot @ [CHR 0x0A]
     @ ''Status: '' @ Status sessionSnapshot @ [CHR 0x0A]
     @ ''Steps: '' @ fmt_d (int (length (Thoughts sessionSnapshot)))
     @ '' of ~'' @ fmt_d (EstimatedTotal sessionSnapshot) @ [CHR 0x0A]
     @ (if length (Branches sessionSnapshot) > 0
        then ''Branches: '' @ strings_Join (Branches sessionSnapshot) '', '' @ [CHR 0x0A]
        else [])
     @ [CHR 0x0A] @ ''--- Thought Sequence ---'' @ [CHR 0x0A]
     @ review_lines m (Thoughts sessionSnapshot) 0"

definition ReviewThinking :: "ReviewThinkingArgs \<Rightarrow> world \<Rightarrow> (error + string) \<times> world" where
  "ReviewThinking args w =
     (case SessionSnapshot (SessionID_r args) w of
        (None, w1) \<Rightarrow> (Inl (SessionNotFound (SessionID_r args)), w1)
      | (Some sessionSnapshot, w1) \<Rightarrow> (Inr (review_text (mem w1) sessionSnapshot), w1))"

text \<open>
  \<^verbatim>\<open>ThinkingHistory\<close> (lines 426-476). Its input is what \<^verbatim>\<open>url.Parse\<close> makes
  of the URI: \<open>None\<close> when parsing fails, or the scheme and the host. Its result is the
  snapshot that the code hands to \<^verbatim>\<open>json.MarshalIndent\<close>.
\<close>

datatype resource = AllSessions "ThinkingSession list" | OneSession ThinkingSession

definition ThinkingHistory ::
  "(string \<times> string) option \<Rightarrow> world \<Rightarrow> (error + resource) \<times> world" where
  "ThinkingHistory u w =
     (case u of
        None \<Rightarrow> (Inl InvalidURI, w)
      | Some (scheme, host) \<Rightarrow>
          if scheme \<noteq> ''thinking'' then (Inl (InvalidURIScheme scheme), w)
          else
            (let sessionID = host
             in if sessionID = ''sessions''
                then (let (sessions, w1) = SessionsSnapshot w in (Inr (AllSessions sessions), w1))
                else (case SessionSnapshot sessionID w of
                        (None, w1) \<Rightarrow> (Inl (SessionNotFound sessionID), w1)
                      | (Some session, w1) \<Rightarrow> (Inr (OneSession session), w1))))"

subsection \<open>Reading a session through the memory\<close>

text \<open>
  The thoughts of a session as values, and the states in which every thought pointer of
  the store is an allocated object (Go has no other pointers).
\<close>

definition thoughts_of :: "memory \<Rightarrow> ThinkingSession \<Rightarrow> Thought list" where
  "thoughts_of m s = map (thought_at m) (Thoughts s)"

definition allocated :: "memory \<Rightarrow> ThinkingSession \<Rightarrow> bool" where
  "allocated m s = list_all (\<lambda>a. a < brk m) (Thoughts s)"

definition wf_world :: "world \<Rightarrow> bool" where
  "wf_world w \<longleftrightarrow>
     distinct (map fst (store1 w)) \<and> list_all (\<lambda>(k, s). allocated (mem w) s) (store1 w)"

text \<open>
  \<open>mem_extends m m'\<close>: \<open>m'\<close> is \<open>m\<close> with more objects allocated; every object of
  \<open>m\<close> and every int cell is as it was.
\<close>

definition mem_extends :: "memory \<Rightarrow> memory \<Rightarrow> bool" where
  "mem_extends m m' \<longleftrightarrow>
     brk m \<le> brk m' \<and> (\<forall>a<brk m. thought_at m' a = thought_at m a) \<and> int_at m' = int_at m"

subsection \<open>States used as examples\<close>

text \<open>
  The memory and the store at program start, and a store with one session of two
  thoughts, the first of which has a \<^verbatim>\<open>ParentIndex\<close>.
\<close>

definition mem0 :: memory where
  "mem0 = \<lparr>thought_at = (\<lambda>a. \<lparr>Index = 0, Content = [], Created = 0, Revised = False,
                                  ParentIndex = None\<rparr>),
           int_at = (\<lambda>a. 0), brk = 0\<rparr>"

definition world0 :: world where
  "world0 = \<lparr>store1 = NewSessionStore, mem = mem0\<rparr>"

definition ex_session :: ThinkingSession where
  "ex_session = \<lparr>ID = ''s'', Problem = ''P'', Thoughts = [0, 1], CurrentThought = 2,
                  EstimatedTotal = 3, Status = ''active'', Created_s = 10, LastActivity = 12,
                  Branches = [], Version = 2\<rparr>"

definition ex_mem :: memory where
  "ex_mem = \<lparr>thought_at = (thought_at mem0)
                (0 := \<lparr>Index = 1, Content = ''step1'', Created = 11, Revised = False,
                       ParentIndex = Some 0\<rparr>,
                 1 := \<lparr>Index = 2, Content = ''step2'', Created = 12, Revised = False,
                       ParentIndex = None\<rparr>),
             int_at = (int_at mem0)(0 := 1), brk = 2\<rparr>"

definition ex_world :: world where
  "ex_world = \<lparr>store1 = [(''s'', ex_session)], mem = ex_mem\<rparr>"

definition ex_now :: "nat \<Rightarrow> time" where
  "ex_now i = 100 + int i"


subsection \<open>What a caller can do with a snapshot\<close>

text \<open>
  A caller that holds a session returned by a read operation can write through the
  pointers in it. \<open>write_Thought\<close> is an assignment to the fields of the i-th thought
  (\<^verbatim>\<open>*snap.Thoughts[i] = t\<close>), \<open>write_ParentIndex\<close> the assignment
  \<^verbatim>\<open>*snap.Thoughts[i].ParentIndex = v\<close>; both are \<open>None\<close> where the Go
  statement panics (index out of range, nil pointer). \<open>parent_values\<close> reads the
  value behind the \<^verbatim>\<open>ParentIndex\<close> of each thought, as
  \<^verbatim>\<open>json.MarshalIndent\<close> does.
\<close>

definition write_Thought :: "ThinkingSession \<Rightarrow> nat \<Rightarrow> Thought \<Rightarrow> memory \<Rightarrow> memory option" where
  "write_Thought snap i t m =
     (if i < length (Thoughts snap)
      then Some (m\<lparr>thought_at := (thought_at m)(Thoughts snap ! i := t)\<rparr>)
      else None)"

definition write_ParentIndex :: "ThinkingSession \<Rightarrow> nat \<Rightarrow> int \<Rightarrow> memory \<Rightarrow> memory option" where
  "write_ParentIndex snap i v m =
     (if i < length (Thoughts snap)
      then (case ParentIndex (thought_at m (Thoughts snap ! i)) of
              None \<Rightarrow> None
            | Some p \<Rightarrow> Some (m\<lparr>int_at := (int_at m)(p := v)\<rparr>))
      else None)"

definition parent_values :: "memory \<Rightarrow> ThinkingSession \<Rightarrow> int option list" where
  "parent_values m s = map (\<lambda>t. map_option (int_at m) (ParentIndex t)) (thoughts_of m s)"

text \<open>
  A caller makes any number of such assignments, one after the other; the first that
  panics ends them. The fields of the returned struct itself and its
  \<^verbatim>\<open>Branches\<close> (\<^verbatim>\<open>slices.Clone\<close>, line 59) are the caller's own copy: in the model
  a session is a value.
\<close>

datatype mutation = SetThought nat Thought | SetParentIndex nat int

fun mutate :: "ThinkingSession \<Rightarrow> mutation list \<Rightarrow> memory \<Rightarrow> memory option" where
  "mutate snap [] m = Some m"
| "mutate snap (SetThought i t # ms) m =
     (case write_Thought snap i t m of None \<Rightarrow> None | Some m' \<Rightarrow> mutate snap ms m')"
| "mutate snap (SetParentIndex i v # ms) m =
     (case write_ParentIndex snap i v m of None \<Rightarrow> None | Some m' \<Rightarrow> mutate snap ms m')"

subsection \<open>Sequences of calls of the public interface\<close>

text \<open>
  A call of one of the four handlers with its inputs, and the world after it;
  \<open>run\<close> makes the calls of a list one after the other.
\<close>

datatype call =
    CallStartThinking StartThinkingArgs "8 word list" "nat \<Rightarrow> time"
  | CallContinueThinking ContinueThinkingArgs "nat \<Rightarrow> time"
  | CallReviewThinking ReviewThinkingArgs
  | CallThinkingHistory "(string \<times> string) option"

fun handle :: "call \<Rightarrow> world \<Rightarrow> world option" where
  "handle (CallStartThinking args src now) w = Some (snd (StartThinking args src now w))"
| "handle (CallContinueThinking args now) w = map_option snd (ContinueThinking args now w)"
| "handle (CallReviewThinking args) w = Some (snd (ReviewThinking args w))"
| "handle (CallThinkingHistory u) w = Some (snd (ThinkingHistory u w))"

fun run :: "call list \<Rightarrow> world \<Rightarrow> world option" where
  "run [] w = Some w"
| "run (c # cs) w = (case handle c w of None \<Rightarrow> None | Some w' \<Rightarrow> run cs w')"

text \<open>
  The id under which a call makes \<^verbatim>\<open>SetSession\<close> store a new session:
  StartThinking under the id it is given or draws (line 245), a branch under the id it
  derives from the parent, when the parent is present (line 318).
\<close>

fun set_session_id :: "call \<Rightarrow> world \<Rightarrow> string option" where
  "set_session_id (CallStartThinking args src now) w =
     Some (if SessionID_a args = [] then randText src else SessionID_a args)"
| "set_session_id (CallContinueThinking args now) w =
     (if ReviseStep args = None \<and> CreateBranch args
      then (case map_of (store1 w) (SessionID args) of
              None \<Rightarrow> None
            | Some s \<Rightarrow>
                Some (SessionID args @ ''_branch_'' @ fmt_d (int (length (Branches s)) + 1)))
      else None)"
| "set_session_id (CallReviewThinking args) w = None"
| "set_session_id (CallThinkingHistory u) w = None"

fun never_set :: "string \<Rightarrow> call list \<Rightarrow> world \<Rightarrow> bool" where
  "never_set sid [] w = True"
| "never_set sid (c # cs) w =
     (set_session_id c w \<noteq> Some sid \<and>
      (case handle c w of None \<Rightarrow> True | Some w' \<Rightarrow> never_set sid cs w'))"

text \<open>
  No handler ever assigns a \<^verbatim>\<open>ParentIndex\<close>: the one thought literal of the code
  (lines 337-342) leaves it nil, and copying and revising a thought keep it. So in the
  stores that the handlers build, every \<^verbatim>\<open>ParentIndex\<close> is nil.
\<close>

definition no_ParentIndex :: "memory \<Rightarrow> ThinkingSession \<Rightarrow> bool" where
  "no_ParentIndex m s \<longleftrightarrow> list_all (\<lambda>t. ParentIndex t = None) (thoughts_of m s)"

definition nil_world :: "world \<Rightarrow> bool" where
  "nil_world w \<longleftrightarrow>
     wf_world w \<and> list_all (\<lambda>(k, s). no_ParentIndex (mem w) s) (store1 w)"

text \<open>The indices of the thoughts of a session are 1, 2, ... in the order of the sequence.\<close>

definition contiguous :: "memory \<Rightarrow> ThinkingSession \<Rightarrow> bool" where
  "contiguous m s \<longleftrightarrow> map Index (thoughts_of m s) = map int [1 ..< Suc (length (Thoughts s))]"

definition good_world :: "world \<Rightarrow> bool" where
  "good_world w \<longleftrightarrow> wf_world w \<and> list_all (\<lambda>(k, s). contiguous (mem w) s) (store1 w)"

text \<open>
  The versions of one session seen after each call of a run (\<open>None\<close> where the session
  is absent or the call does not return), and the lists of numbers that go up from \<open>v\<close>
  in steps of 0 or 1.
\<close>

fun version_trace :: "string \<Rightarrow> call list \<Rightarrow> world \<Rightarrow> 64 word option list" where
  "version_trace sid [] w = []"
| "version_trace sid (c # cs) w =
     (case handle c w of
        None \<Rightarrow> [None]
      | Some w' \<Rightarrow> map_option Version (map_of (store1 w') sid) # version_trace sid cs w')"

fun unit_steps :: "int \<Rightarrow> int list \<Rightarrow> bool" where
  "unit_steps v [] = True"
| "unit_steps v (x # xs) = ((x = v \<or> x = v + 1) \<and> unit_steps x xs)"

definition append_call :: "ContinueThinkingArgs \<times> (nat \<Rightarrow> time) \<Rightarrow> call" where
  "append_call a = CallContinueThinking (fst a) (snd a)"

definition is_append :: "string \<Rightarrow> ContinueThinkingArgs \<Rightarrow> bool" where
  "is_append sid args \<longleftrightarrow> SessionID args = sid \<and> ReviseStep args = None \<and> \<not> CreateBranch args"

text \<open>Calls used as examples.\<close>

definition ex_start :: call where
  "ex_start = CallStartThinking \<lparr>Problem_a = ''P'', SessionID_a = ''s'', EstimatedSteps = 3\<rparr>
                [] ex_now"

definition ex_append_args :: "string \<Rightarrow> bool option \<Rightarrow> ContinueThinkingArgs" where
  "ex_append_args thought next =
     \<lparr>SessionID = ''s'', Thought_a = thought, NextNeeded = next, ReviseStep = None,
      CreateBranch = False, EstimatedTotal_a = 0\<rparr>"

definition ex_revise_args :: "int \<Rightarrow> string \<Rightarrow> ContinueThinkingArgs" where
  "ex_revise_args k thought =
     \<lparr>SessionID = ''s'', Thought_a = thought, NextNeeded = None, ReviseStep = Some k,
      CreateBranch = False, EstimatedTotal_a = 0\<rparr>"


subsection \<open>Concurrent append calls\<close>

text \<open>
  Several calls of ContinueThinking that take the append path (lines 335-384) run at
  the same time. A caller is at one of four places of \<^verbatim>\<open>CompareAndSwap\<close>: at
  the head of the loop, after the read-locked section with its copy and the version it
  read, after the update function with the updated copy, the values captured by the
  closure and that version, or returned. The two locked sections are atomic (the
  mutex); the update function works on the caller's own copy and allocates, so it is
  one step as well. A schedule names, step by step, the caller that moves and the clock
  readings of that step.
\<close>

datatype pc =
    AtRead
  | AtUpdate ThinkingSession "64 word"
  | AtCommit ThinkingSession "int \<times> string \<times> string" "64 word"
  | Returned "error + string"

record caller =
  call_args :: ContinueThinkingArgs
  call_at :: pc

definition caller_step :: "(nat \<Rightarrow> time) \<Rightarrow> caller \<Rightarrow> world \<Rightarrow> caller \<times> world" where
  "caller_step now c w =
     (case call_at c of
        AtRead \<Rightarrow>
          (case CompareAndSwap_read (SessionID (call_args c)) w of
             (Inl err, w1) \<Rightarrow> (c\<lparr>call_at := Returned (Inl err)\<rparr>, w1)
           | (Inr (sessionCopy, oldVersion), w1) \<Rightarrow>
               (c\<lparr>call_at := AtUpdate sessionCopy oldVersion\<rparr>, w1))
      | AtUpdate sessionCopy oldVersion \<Rightarrow>
          (case appendFunc (call_args c) now sessionCopy (mem w) of
             (Inl err, m2) \<Rightarrow> (c\<lparr>call_at := Returned (Inl err)\<rparr>, w\<lparr>mem := m2\<rparr>)
           | (Inr (updated, out), m2) \<Rightarrow>
               (c\<lparr>call_at := AtCommit updated out oldVersion\<rparr>, w\<lparr>mem := m2\<rparr>))
      | AtCommit updated out oldVersion \<Rightarrow>
          (case CompareAndSwap_commit (SessionID (call_args c)) oldVersion updated w of
             (Retry, w3) \<Rightarrow> (c\<lparr>call_at := AtRead\<rparr>, w3)
           | (Missing, w3) \<Rightarrow>
               (c\<lparr>call_at := Returned (Inl (SessionNotFound (SessionID (call_args c))))\<rparr>, w3)
           | (Committed, w3) \<Rightarrow>
               (case out of (thoughtID, progress, statusMsg) \<Rightarrow>
                  (c\<lparr>call_at := Returned (Inr (append_text (SessionID (call_args c)) progress
                                                 (Thought_a (call_args c)) statusMsg))\<rparr>, w3)))
      | Returned r \<Rightarrow> (c, w))"

type_synonym schedule = "(nat \<times> (nat \<Rightarrow> time)) list"

definition sched_step :: "nat \<times> (nat \<Rightarrow> time) \<Rightarrow> caller list \<times> world \<Rightarrow> caller list \<times> world" where
  "sched_step e cfg =
     (case e of (i, now) \<Rightarrow>
        (case cfg of (cs, w) \<Rightarrow>
           if i < length cs
           then (case caller_step now (cs ! i) w of (c', w') \<Rightarrow> (cs[i := c'], w'))
           else (cs, w)))"

fun interleave :: "schedule \<Rightarrow> caller list \<times> world \<Rightarrow> caller list \<times> world" where
  "interleave [] cfg = cfg"
| "interleave (e # sch) cfg = interleave sch (sched_step e cfg)"

definition append_callers :: "ContinueThinkingArgs list \<Rightarrow> caller list" where
  "append_callers argss = map (\<lambda>a. \<lparr>call_args = a, call_at = AtRead\<rparr>) argss"

definition is_returned :: "caller \<Rightarrow> bool" where
  "is_returned c = (case call_at c of Returned r \<Rightarrow> True | _ \<Rightarrow> False)"

definition succeeded :: "caller \<Rightarrow> bool" where
  "succeeded c = (case call_at c of Returned (Inr msg) \<Rightarrow> True | _ \<Rightarrow> False)"

text \<open>The schedule that lets each of the first \<open>n\<close> callers in turn make five steps.\<close>

definition finish :: "nat \<Rightarrow> (nat \<Rightarrow> time) \<Rightarrow> schedule" where
  "finish n now = concat (map (\<lambda>i. replicate 5 (i, now)) [0 ..< n])"

text \<open>
  What holds of a caller between its steps, for the stored session \<open>s\<close>: the version
  it read is not ahead of the stored one, and while it is the stored one, its copy has
  the thoughts of \<open>s\<close>, and its updated copy has them followed by its own thought.
  The invariant of a configuration counts the commits from the version number \<open>v0\<close>
  at the start; all of them fit below \<open>2^63\<close>, so the version never wraps.
\<close>

definition caller_ok :: "memory \<Rightarrow> ThinkingSession \<Rightarrow> caller \<Rightarrow> bool" where
  "caller_ok m s c =
     (case call_at c of
        AtRead \<Rightarrow> True
      | AtUpdate sessionCopy oldVersion \<Rightarrow>
          sint oldVersion \<le> sint (Version s) \<and> allocated m sessionCopy \<and>
          (oldVersion = Version s \<longrightarrow> thoughts_of m sessionCopy = thoughts_of m s)
      | AtCommit updated out oldVersion \<Rightarrow>
          sint oldVersion \<le> sint (Version s) \<and> allocated m updated \<and>
          (oldVersion = Version s \<longrightarrow>
             (\<exists>t. thoughts_of m updated = thoughts_of m s @ [t] \<and>
                  Index t = int (length (Thoughts s)) + 1 \<and>
                  Content t = Thought_a (call_args c)))
      | Returned r \<Rightarrow> (\<exists>msg. r = Inr msg))"

definition appends_inv ::
  "string \<Rightarrow> int \<Rightarrow> Thought list \<Rightarrow> ContinueThinkingArgs list \<Rightarrow> caller list \<times> world \<Rightarrow> bool" where
  "appends_inv sid v0 ts0 argss cfg =
     (case cfg of (cs, w) \<Rightarrow>
        wf_world w \<and> map call_args cs = argss \<and> v0 + int (length argss) < 2 ^ 63 \<and>
        (\<exists>s. map_of (store1 w) sid = Some s \<and>
             sint (Version s) = v0 + int (length (filter is_returned cs)) \<and>
             length (Thoughts s) = length ts0 + length (filter is_returned cs) \<and>
             take (length ts0) (thoughts_of (mem w) s) = ts0 \<and>
             contiguous (mem w) s \<and>
             mset (map Content (drop (length ts0) (thoughts_of (mem w) s))) =
               mset (map (\<lambda>c. Thought_a (call_args c)) (filter is_returned cs)) \<and>
             (\<forall>c \<in> set cs. caller_ok (mem w) s c)))"

text \<open>The number of steps a caller still needs when it runs alone.\<close>

definition steps_left :: "string \<Rightarrow> world \<Rightarrow> caller \<Rightarrow> nat" where
  "steps_left sid w c =
     (case call_at c of
        AtRead \<Rightarrow> 3
      | AtUpdate sessionCopy oldVersion \<Rightarrow>
          if map_option Version (map_of (store1 w) sid) = Some oldVersion then 2 else 5
      | AtCommit updated out oldVersion \<Rightarrow>
          if map_option Version (map_of (store1 w) sid) = Some oldVersion then 1 else 4
      | Returned r \<Rightarrow> 0)"

text \<open>
  An example: the store after \<^verbatim>\<open>StartThinking\<close> of session "s", and a schedule of
  two callers in which both read version 0, the first commits and the second has to
  retry.
\<close>

definition ex_fresh :: ThinkingSession where
  "ex_fresh = \<lparr>ID = ''s'', Problem = ''P'', Thoughts = [], CurrentThought = 0,
                EstimatedTotal = 3, Status = ''active'', Created_s = 100,
                LastActivity = 101, Branches = [], Version = 0\<rparr>"

definition ex_started :: world where
  "ex_started = \<lparr>store1 = [(''s'', ex_fresh)], mem = mem0\<rparr>"

definition ex_schedule :: schedule where
  "ex_schedule = map (\<lambda>i. (i, ex_now)) [0, 1, 0, 1, 0, 1, 1, 1, 1]"

section \<open>Properties\<close>

subsection \<open>The version as a number\<close>

text \<open>Below the greatest int the sum of line 143 is the next number.\<close>

lemma sint_succ:
  fixes v :: "64 word"
  assumes "sint v < 2 ^ 63 - 1"
  shows "sint (v + 1) = sint v + 1"
proof -
  have "- (2 ^ 63) \<le> sint v" using sint_ge [of v] by simp
  with assms show ?thesis
    by (simp add: sint_word_ariths signed_take_bit_int_eq_self_iff)
qed

text \<open>At the greatest int the version wraps, as line 143 does.\<close>

lemma CompareAndSwap_commit_wraps:
  "Version current = 0x7FFFFFFFFFFFFFFF \<Longrightarrow> map_of (store1 w) sid = Some current \<Longrightarrow>
     \<exists>w' s'. CompareAndSwap_commit sid (Version current) updated w = (Committed, w')
        \<and> map_of (store1 w') sid = Some s' \<and> sint (Version s') = - 9223372036854775808"
  by (simp add: CompareAndSwap_commit_def update_conv')


subsection \<open>Allocation and copying\<close>

lemma mem_extends_refl: "mem_extends m m"
  by (simp add: mem_extends_def)

lemma mem_extends_trans: "mem_extends m1 m2 \<Longrightarrow> mem_extends m2 m3 \<Longrightarrow> mem_extends m1 m3"
  by (auto simp: mem_extends_def)

lemma new_Thought_extends: "new_Thought t m = (a, m') \<Longrightarrow> mem_extends m m'"
  by (auto simp: new_Thought_def mem_extends_def)

lemma deepCopyThoughts_extends:
  "deepCopyThoughts ps m = (qs, m') \<Longrightarrow> mem_extends m m'"
proof (induction ps arbitrary: m qs m')
  case Nil
  then show ?case by (simp add: mem_extends_refl)
next
  case (Cons p ps)
  obtain q m1 where a: "new_Thought (thought_at m p) m = (q, m1)" by fastforce
  obtain qs' m2 where b: "deepCopyThoughts ps m1 = (qs', m2)" by fastforce
  from Cons.prems a b have "m' = m2" by simp
  with Cons.IH [OF b] new_Thought_extends [OF a] show ?case
    by (blast intro: mem_extends_trans)
qed

lemma deepCopyThoughts_addrs:
  "deepCopyThoughts ps m = (qs, m') \<Longrightarrow>
     qs = [brk m ..< brk m + length ps] \<and> brk m' = brk m + length ps"
proof (induction ps arbitrary: m qs m')
  case Nil
  then show ?case by simp
next
  case (Cons p ps)
  obtain q m1 where a: "new_Thought (thought_at m p) m = (q, m1)" by fastforce
  obtain qs' m2 where b: "deepCopyThoughts ps m1 = (qs', m2)" by fastforce
  from a have q: "q = brk m" "brk m1 = Suc (brk m)" by (auto simp: new_Thought_def)
  from Cons.prems a b have e: "qs = q # qs'" "m' = m2" by simp_all
  from Cons.IH [OF b] q e show ?case
    by (simp add: upt_rec)
qed

lemma deepCopyThoughts_values:
  "deepCopyThoughts ps m = (qs, m') \<Longrightarrow> list_all (\<lambda>a. a < brk m) ps \<Longrightarrow>
     map (thought_at m') qs = map (thought_at m) ps"
proof (induction ps arbitrary: m qs m')
  case Nil
  then show ?case by simp
next
  case (Cons p ps)
  obtain q m1 where a: "new_Thought (thought_at m p) m = (q, m1)" by fastforce
  obtain qs' m2 where b: "deepCopyThoughts ps m1 = (qs', m2)" by fastforce
  from a have q: "q = brk m" "brk m1 = Suc (brk m)" "thought_at m1 q = thought_at m p"
    "\<forall>a<brk m. thought_at m1 a = thought_at m a"
    by (auto simp: new_Thought_def)
  from Cons.prems a b have e: "qs = q # qs'" "m' = m2" by simp_all
  from Cons.prems(2) q have al: "list_all (\<lambda>a. a < brk m1) ps"
    by (auto simp: list_all_iff)
  have "map (thought_at m2) qs' = map (thought_at m1) ps"
    by (rule Cons.IH [OF b al])
  also have "\<dots> = map (thought_at m) ps"
    using Cons.prems(2) q(4) by (auto simp: list_all_iff)
  finally have tl: "map (thought_at m2) qs' = map (thought_at m) ps" .
  from deepCopyThoughts_extends [OF b] q have "thought_at m2 q = thought_at m p"
    by (simp add: mem_extends_def)
  with tl e show ?case by simp
qed

subsection \<open>One call of CompareAndSwap with no other caller\<close>

text \<open>
  Between the two locked sections nobody else writes the store, so the version read
  in the first is the version found in the second and the loop body runs once.
\<close>

lemma CompareAndSwap_missing:
  "map_of (store1 w) sid = None \<Longrightarrow>
     CompareAndSwap sid f w = Some (Inl (SessionNotFound sid), w)"
  by (subst CompareAndSwap.simps) (simp add: CompareAndSwap_read_def)

lemma CompareAndSwap_error:
  "map_of (store1 w) sid = Some current \<Longrightarrow> clone current (mem w) = (c, m1) \<Longrightarrow>
   f c m1 = (Inl err, m2) \<Longrightarrow>
     CompareAndSwap sid f w = Some (Inl err, w\<lparr>mem := m2\<rparr>)"
  by (subst CompareAndSwap.simps) (simp add: CompareAndSwap_read_def)

lemma CompareAndSwap_commits:
  "map_of (store1 w) sid = Some current \<Longrightarrow> clone current (mem w) = (c, m1) \<Longrightarrow>
   f c m1 = (Inr (updated, out), m2) \<Longrightarrow>
     CompareAndSwap sid f w =
       Some (Inr out, \<lparr>store1 = AList.update sid (updated\<lparr>Version := Version current + 1\<rparr>) (store1 w),
                       mem = m2\<rparr>)"
  by (subst CompareAndSwap.simps)
     (simp add: CompareAndSwap_read_def CompareAndSwap_commit_def)


lemma thoughts_of_extends:
  "mem_extends m m' \<Longrightarrow> allocated m s \<Longrightarrow> thoughts_of m' s = thoughts_of m s \<and> allocated m' s"
  by (auto simp: mem_extends_def allocated_def thoughts_of_def list_all_iff)

lemma clone_effect:
  assumes "clone s m = (c, m')"
  shows "c = s\<lparr>Thoughts := [brk m ..< brk m + length (Thoughts s)]\<rparr>"
    and "brk m' = brk m + length (Thoughts s)"
    and "mem_extends m m'"
    and "allocated m' c"
    and "allocated m s \<Longrightarrow> thoughts_of m' c = thoughts_of m s"
proof -
  obtain qs m1 where d: "deepCopyThoughts (Thoughts s) m = (qs, m1)" by fastforce
  with assms have e: "c = s\<lparr>Thoughts := qs\<rparr>" "m' = m1"
    by (simp_all add: clone_def)
  from deepCopyThoughts_addrs [OF d] e
  show 1: "c = s\<lparr>Thoughts := [brk m ..< brk m + length (Thoughts s)]\<rparr>"
    and 2: "brk m' = brk m + length (Thoughts s)" by simp_all
  from deepCopyThoughts_extends [OF d] e show "mem_extends m m'" by simp
  from 1 2 show "allocated m' c" by (simp add: allocated_def list_all_iff)
  assume "allocated m s"
  with deepCopyThoughts_values [OF d] e show "thoughts_of m' c = thoughts_of m s"
    by (simp add: thoughts_of_def allocated_def)
qed

lemma map_fun_upd_distinct:
  "distinct xs \<Longrightarrow> i < length xs \<Longrightarrow> map (f(xs ! i := v)) xs = (map f xs)[i := v]"
  by (rule nth_equalityI) (auto simp: nth_list_update nth_eq_iff_index_eq)

lemma wf_world_iff:
  "wf_world w \<longleftrightarrow>
     distinct (map fst (store1 w)) \<and>
     (\<forall>k s. map_of (store1 w) k = Some s \<longrightarrow> allocated (mem w) s)"
  by (auto simp: wf_world_def list_all_iff dest: map_of_SomeD)

lemma wf_world_update:
  assumes "wf_world w" and "mem_extends (mem w) m'" and "allocated m' s'"
  shows "wf_world \<lparr>store1 = AList.update k s' (store1 w), mem = m'\<rparr>"
  using assms thoughts_of_extends [OF assms(2)]
  by (auto simp: wf_world_iff distinct_update update_conv')


lemma revise_fails:
  assumes r: "ReviseStep args = Some k"
    and s: "map_of (store1 w) (SessionID args) = Some s"
    and k: "k < 1 \<or> int (length (Thoughts s)) < k"
  shows "\<exists>m'. ContinueThinking args now w = Some (Inl (InvalidStepNumber k), w\<lparr>mem := m'\<rparr>)
           \<and> mem_extends (mem w) m'"
proof -
  obtain c m1 where cl: "clone s (mem w) = (c, m1)" by fastforce
  note ce = clone_effect [OF cl]
  from ce(1) k have "reviseFunc args k now c m1 = (Inl (InvalidStepNumber k), m1)"
    by (auto simp: reviseFunc_def)
  from CompareAndSwap_error [where f = "reviseFunc args k now", OF s cl this] r ce(3)
  show ?thesis
    by (auto simp: ContinueThinking_def)
qed

lemma revise_commits:
  assumes r: "ReviseStep args = Some k"
    and s: "map_of (store1 w) (SessionID args) = Some s"
    and k: "1 \<le> k" "k \<le> int (length (Thoughts s))"
  defines "b \<equiv> brk (mem w)" and "L \<equiv> length (Thoughts s)"
  shows "\<exists>text m'. ContinueThinking args now w =
           Some (Inr text,
                 \<lparr>store1 = AList.update (SessionID args)
                             (s\<lparr>Thoughts := [b ..< b + L], LastActivity := now 0,
                                Version := Version s + 1\<rparr>) (store1 w),
                  mem = m'\<rparr>)
           \<and> mem_extends (mem w) m' \<and> brk m' = b + L
           \<and> (allocated (mem w) s \<longrightarrow>
                map (thought_at m') [b ..< b + L] =
                  (thoughts_of (mem w) s)
                    [nat (k - 1) := (thoughts_of (mem w) s ! nat (k - 1))
                                      \<lparr>Content := Thought_a args, Revised := True\<rparr>])"
proof -
  obtain c m1 where cl: "clone s (mem w) = (c, m1)" by fastforce
  note ce = clone_effect [OF cl]
  define i where "i = nat (k - 1)"
  from k have i: "i < L" "k - 1 = int i" by (auto simp: i_def L_def)
  define t where "t = b + i"
  have t: "[b ..< b + L] ! i = t" using i by (simp add: t_def)
  define m2 where "m2 = m1\<lparr>thought_at := (thought_at m1)
                          (t := (thought_at m1 t)\<lparr>Content := Thought_a args, Revised := True\<rparr>)\<rparr>"
  have rng: "\<not> (k - 1 < 0 \<or> int (length (Thoughts c)) \<le> k - 1)"
    using k ce(1) by simp
  have nth: "Thoughts c ! nat (k - 1) = t"
    using t ce(1) by (simp add: i_def b_def L_def)
  have f: "reviseFunc args k now c m1 = (Inr (c\<lparr>LastActivity := now 0\<rparr>, ()), m2)"
    unfolding reviseFunc_def Let_def using rng nth by (simp add: m2_def)
  have ext: "mem_extends (mem w) m2"
    using ce(3) by (auto simp: mem_extends_def m2_def t_def b_def)
  have brk: "brk m2 = b + L"
    using ce(2) by (simp add: m2_def b_def L_def)
  have vals: "map (thought_at m2) [b ..< b + L] =
      (thoughts_of (mem w) s)[i := (thoughts_of (mem w) s ! i)\<lparr>Content := Thought_a args, Revised := True\<rparr>]"
    if al: "allocated (mem w) s"
  proof -
    from ce(5) [OF al] ce(1)
    have old: "map (thought_at m1) [b ..< b + L] = thoughts_of (mem w) s"
      by (simp add: thoughts_of_def b_def L_def)
    let ?v = "(thought_at m1 t)\<lparr>Content := Thought_a args, Revised := True\<rparr>"
    have "map ((thought_at m1)([b ..< b + L] ! i := ?v)) [b ..< b + L] =
        (map (thought_at m1) [b ..< b + L])[i := ?v]"
      by (rule map_fun_upd_distinct) (use i in simp_all)
    moreover have "thought_at m2 = (thought_at m1)([b ..< b + L] ! i := ?v)"
      unfolding t by (simp add: m2_def)
    ultimately have "map (thought_at m2) [b ..< b + L] =
        (map (thought_at m1) [b ..< b + L])[i := ?v]"
      by simp
    moreover have "thought_at m1 t = thoughts_of (mem w) s ! i"
      using old i t by (metis length_upt add_diff_cancel_left' nth_map)
    ultimately show ?thesis using old by simp
  qed
  from CompareAndSwap_commits [where f = "reviseFunc args k now", OF s cl f] r ce(1) ext brk vals
  show ?thesis
    by (auto simp: ContinueThinking_def b_def L_def i_def)
qed


lemma append_missing:
  assumes r: "ReviseStep args = None" "\<not> CreateBranch args"
    and s: "map_of (store1 w) (SessionID args) = None"
  shows "ContinueThinking args now w = Some (Inl (SessionNotFound (SessionID args)), w)"
  using r CompareAndSwap_missing [OF s, where f = "appendFunc args now"]
  by (simp add: ContinueThinking_def)

lemma append_commits:
  assumes r: "ReviseStep args = None" "\<not> CreateBranch args"
    and s: "map_of (store1 w) (SessionID args) = Some s"
  defines "b \<equiv> brk (mem w)" and "L \<equiv> length (Thoughts s)"
  shows "\<exists>text m'. ContinueThinking args now w =
           Some (Inr text,
                 \<lparr>store1 = AList.update (SessionID args)
                    (s\<lparr>Thoughts := [b ..< b + L] @ [b + L],
                       CurrentThought := int L + 1,
                       EstimatedTotal := (if EstimatedTotal_a args > 0 then EstimatedTotal_a args
                                          else EstimatedTotal s),
                       Status := (if NextNeeded args = Some False then ''completed''
                                  else Status s),
                       LastActivity := now 1,
                       Version := Version s + 1\<rparr>) (store1 w),
                  mem = m'\<rparr>)
           \<and> mem_extends (mem w) m' \<and> brk m' = b + L + 1
           \<and> (allocated (mem w) s \<longrightarrow>
                map (thought_at m') ([b ..< b + L] @ [b + L]) =
                  thoughts_of (mem w) s @
                    [\<lparr>Index = int L + 1, Content = Thought_a args, Created = now 0,
                      Revised = False, ParentIndex = None\<rparr>])"
proof -
  obtain c m1 where cl: "clone s (mem w) = (c, m1)" by fastforce
  note ce = clone_effect [OF cl]
  let ?t = "\<lparr>Index = int L + 1, Content = Thought_a args, Created = now 0,
             Revised = False, ParentIndex = None\<rparr>"
  obtain a m2 where nt: "new_Thought ?t m1 = (a, m2)" by fastforce
  from nt ce(2) have a: "a = b + L" "brk m2 = b + L + 1" "thought_at m2 a = ?t"
    by (auto simp: new_Thought_def b_def L_def)
  have ext12: "mem_extends m1 m2" by (rule new_Thought_extends [OF nt])
  have ext: "mem_extends (mem w) m2" by (rule mem_extends_trans [OF ce(3) ext12])
  have "\<exists>out. appendFunc args now c m1 =
      (Inr (s\<lparr>Thoughts := [b ..< b + L] @ [b + L],
              CurrentThought := int L + 1,
              EstimatedTotal := (if EstimatedTotal_a args > 0 then EstimatedTotal_a args
                                 else EstimatedTotal s),
              Status := (if NextNeeded args = Some False then ''completed'' else Status s),
              LastActivity := now 1\<rparr>, out), m2)"
    using nt ce(1) a(1) by (simp add: appendFunc_def Let_def b_def L_def)
  then obtain out where f: "appendFunc args now c m1 =
      (Inr (s\<lparr>Thoughts := [b ..< b + L] @ [b + L],
              CurrentThought := int L + 1,
              EstimatedTotal := (if EstimatedTotal_a args > 0 then EstimatedTotal_a args
                                 else EstimatedTotal s),
              Status := (if NextNeeded args = Some False then ''completed'' else Status s),
              LastActivity := now 1\<rparr>, out), m2)" ..
  have vals: "map (thought_at m2) ([b ..< b + L] @ [b + L]) = thoughts_of (mem w) s @ [?t]"
    if al: "allocated (mem w) s"
  proof -
    from ce(5) [OF al] ce(1)
    have old: "map (thought_at m1) [b ..< b + L] = thoughts_of (mem w) s"
      by (simp add: thoughts_of_def b_def L_def)
    have "map (thought_at m2) [b ..< b + L] = map (thought_at m1) [b ..< b + L]"
      using ext12 ce(2) by (simp add: mem_extends_def b_def L_def)
    with old a show ?thesis by simp
  qed
  obtain thoughtID progress statusMsg where out: "out = (thoughtID, progress, statusMsg)"
    by (cases out) auto
  from CompareAndSwap_commits [where f = "appendFunc args now", OF s cl f] r ext a(2) vals out
  show ?thesis
    by (auto simp: ContinueThinking_def)
qed

lemma branch_missing:
  assumes r: "ReviseStep args = None" "CreateBranch args"
    and s: "map_of (store1 w) (SessionID args) = None"
  shows "ContinueThinking args now w = Some (Inl (SessionNotFound (SessionID args)), w)"
  using r CompareAndSwap_missing [OF s, where f = "branchFunc args now"]
  by (simp add: ContinueThinking_def)

lemma revise_missing:
  assumes r: "ReviseStep args = Some k"
    and s: "map_of (store1 w) (SessionID args) = None"
  shows "ContinueThinking args now w = Some (Inl (SessionNotFound (SessionID args)), w)"
  using r CompareAndSwap_missing [OF s, where f = "reviseFunc args k now"]
  by (simp add: ContinueThinking_def)

lemma branch_commits:
  assumes r: "ReviseStep args = None" "CreateBranch args"
    and s: "map_of (store1 w) (SessionID args) = Some s"
  defines "b \<equiv> brk (mem w)" and "L \<equiv> length (Thoughts s)"
    and "branchID \<equiv> SessionID args @ ''_branch_'' @ fmt_d (int (length (Branches s)) + 1)"
  shows "\<exists>text m'. ContinueThinking args now w =
           Some (Inr text,
                 \<lparr>store1 =
                    AList.update branchID
                      \<lparr>ID = branchID, Problem = Problem s @ '' (Alternative branch)'',
                       Thoughts = [b + L ..< b + L + L], CurrentThought = int L,
                       EstimatedTotal = EstimatedTotal s, Status = ''active'',
                       Created_s = now 1, LastActivity = now 2, Branches = [], Version = 0\<rparr>
                      (AList.update (SessionID args)
                         (s\<lparr>Thoughts := [b ..< b + L], LastActivity := now 0,
                            Branches := Branches s @ [branchID],
                            Version := Version s + 1\<rparr>) (store1 w)),
                  mem = m'\<rparr>)
           \<and> mem_extends (mem w) m' \<and> brk m' = b + L + L
           \<and> (allocated (mem w) s \<longrightarrow>
                map (thought_at m') [b ..< b + L] = thoughts_of (mem w) s \<and>
                map (thought_at m') [b + L ..< b + L + L] = thoughts_of (mem w) s)"
proof -
  obtain c m1 where cl: "clone s (mem w) = (c, m1)" by fastforce
  note ce = clone_effect [OF cl]
  obtain qs m2 where d: "deepCopyThoughts [b ..< b + L] m1 = (qs, m2)" by fastforce
  from deepCopyThoughts_addrs [OF d] ce(2)
  have q: "qs = [b + L ..< b + L + L]" "brk m2 = b + L + L"
    by (simp_all add: b_def L_def)
  have ext12: "mem_extends m1 m2" by (rule deepCopyThoughts_extends [OF d])
  have ext: "mem_extends (mem w) m2" by (rule mem_extends_trans [OF ce(3) ext12])
  let ?child = "\<lparr>ID = branchID, Problem = Problem s @ '' (Alternative branch)'',
                  Thoughts = [b + L ..< b + L + L], CurrentThought = int L,
                  EstimatedTotal = EstimatedTotal s, Status = ''active'',
                  Created_s = now 1, LastActivity = now 2, Branches = [], Version = 0\<rparr>"
  have f: "branchFunc args now c m1 =
      (Inr (s\<lparr>Thoughts := [b ..< b + L], LastActivity := now 0,
              Branches := Branches s @ [branchID]\<rparr>, (branchID, ?child)), m2)"
    using d q ce(1) by (simp add: branchFunc_def Let_def b_def L_def branchID_def)
  have vals: "map (thought_at m2) [b ..< b + L] = thoughts_of (mem w) s \<and>
              map (thought_at m2) [b + L ..< b + L + L] = thoughts_of (mem w) s"
    if al: "allocated (mem w) s"
  proof -
    from ce(5) [OF al] ce(1)
    have old: "map (thought_at m1) [b ..< b + L] = thoughts_of (mem w) s"
      by (simp add: thoughts_of_def b_def L_def)
    have 1: "map (thought_at m2) [b ..< b + L] = map (thought_at m1) [b ..< b + L]"
      using ext12 ce(2) by (simp add: mem_extends_def b_def L_def)
    have "list_all (\<lambda>a. a < brk m1) [b ..< b + L]"
      using ce(2) by (simp add: list_all_iff b_def L_def)
    from deepCopyThoughts_values [OF d this] q
    have 2: "map (thought_at m2) [b + L ..< b + L + L] = map (thought_at m1) [b ..< b + L]"
      by simp
    from 1 2 old show ?thesis by simp
  qed
  from CompareAndSwap_commits [where f = "branchFunc args now", OF s cl f] r ext q(2) vals
  show ?thesis
    by (auto simp: ContinueThinking_def SetSession_def)
qed


subsection \<open>StartThinking with an id that is present\<close>

text \<open>
  C10. StartThinking with a session id that the store already holds succeeds (it
  returns a text, no error) and stores under that id a new session with no thoughts, no
  branches, status "active" and version 0, whatever the session held before; the other
  sessions and the memory are as they were.
\<close>

theorem StartThinking_replaces:
  assumes "SessionID_a args \<noteq> []"
    and "map_of (store1 w) (SessionID_a args) = Some old"
  shows "\<exists>text w'. StartThinking args src now w = (Inr text, w')
           \<and> map_of (store1 w') (SessionID_a args) =
               Some \<lparr>ID = SessionID_a args, Problem = Problem_a args, Thoughts = [],
                     CurrentThought = 0,
                     EstimatedTotal = (if EstimatedSteps args = 0 then 5 else EstimatedSteps args),
                     Status = ''active'', Created_s = now 0, LastActivity = now 1,
                     Branches = [], Version = 0\<rparr>
           \<and> (\<forall>k. k \<noteq> SessionID_a args \<longrightarrow> map_of (store1 w') k = map_of (store1 w) k)
           \<and> mem w' = mem w"
  using assms by (simp add: StartThinking_def SetSession_def Let_def update_conv')

theorem StartThinking_replaces_witness:
  "SessionID_a \<lparr>Problem_a = ''Q'', SessionID_a = ''s'', EstimatedSteps = 0\<rparr> \<noteq> []
   \<and> map_of (store1 ex_world) ''s'' = Some ex_session
   \<and> Thoughts ex_session = [0, 1] \<and> Version ex_session = 2
   \<and> (\<exists>text w'. StartThinking \<lparr>Problem_a = ''Q'', SessionID_a = ''s'', EstimatedSteps = 0\<rparr>
                     [] ex_now ex_world = (Inr text, w')
        \<and> map_of (store1 w') ''s'' =
            Some \<lparr>ID = ''s'', Problem = ''Q'', Thoughts = [], CurrentThought = 0,
                  EstimatedTotal = 5, Status = ''active'', Created_s = 100, LastActivity = 101,
                  Branches = [], Version = 0\<rparr>)"
  using StartThinking_replaces [of "\<lparr>Problem_a = ''Q'', SessionID_a = ''s'', EstimatedSteps = 0\<rparr>"
      ex_world ex_session "[]" ex_now]
  by (auto simp: ex_world_def ex_session_def ex_now_def)

text \<open>Facts about stored sessions and the example store.\<close>

lemma wf_world_allocated:
  "wf_world w \<Longrightarrow> map_of (store1 w) k = Some s \<Longrightarrow> allocated (mem w) s"
  by (simp add: wf_world_iff)

lemma stored_thoughts_extends:
  "wf_world w \<Longrightarrow> mem_extends (mem w) m' \<Longrightarrow> map_of (store1 w) k = Some s \<Longrightarrow>
     thoughts_of m' s = thoughts_of (mem w) s"
  using thoughts_of_extends wf_world_allocated by blast

lemma ex_world_wf: "wf_world ex_world"
  by (simp add: wf_world_def ex_world_def allocated_def ex_session_def ex_mem_def)

lemma ex_world_thoughts:
  "thoughts_of (mem ex_world) ex_session =
     [\<lparr>Index = 1, Content = ''step1'', Created = 11, Revised = False, ParentIndex = Some 0\<rparr>,
      \<lparr>Index = 2, Content = ''step2'', Created = 12, Revised = False, ParentIndex = None\<rparr>]"
  by (simp add: thoughts_of_def ex_world_def ex_session_def ex_mem_def)


subsection \<open>An update function that fails\<close>




subsection \<open>Revising a step\<close>

text \<open>
  C5. For a session that is present, with L thoughts, a revise call of step k returns
  the invalid-step error exactly when k < 1 or k > L. When it does, the store has the
  entries it had (so every session with its fields and its version) and the thoughts of
  every stored session are as they were.
\<close>

theorem revise_out_of_range:
  assumes "ReviseStep args = Some k"
    and "map_of (store1 w) (SessionID args) = Some s"
    and "wf_world w"
  shows "((\<exists>w'. ContinueThinking args now w = Some (Inl (InvalidStepNumber k), w'))
            \<longleftrightarrow> (k < 1 \<or> int (length (Thoughts s)) < k))
       \<and> (k < 1 \<or> int (length (Thoughts s)) < k \<longrightarrow>
            (\<exists>w'. ContinueThinking args now w = Some (Inl (InvalidStepNumber k), w')
                \<and> store1 w' = store1 w
                \<and> (\<forall>sid' s'. map_of (store1 w) sid' = Some s' \<longrightarrow>
                      thoughts_of (mem w') s' = thoughts_of (mem w) s')))"
proof (cases "k < 1 \<or> int (length (Thoughts s)) < k")
  case True
  from revise_fails [OF assms(1,2) True]
  obtain m' where "ContinueThinking args now w = Some (Inl (InvalidStepNumber k), w\<lparr>mem := m'\<rparr>)"
    and "mem_extends (mem w) m'" by blast
  with True stored_thoughts_extends [OF assms(3)] show ?thesis
    by auto
next
  case False
  then have "1 \<le> k" "k \<le> int (length (Thoughts s))" by simp_all
  from revise_commits [OF assms(1,2) this]
  obtain msg w' where "ContinueThinking args now w = Some (Inr msg, w')" by blast
  with False show ?thesis by simp
qed

theorem revise_out_of_range_witness:
  "ReviseStep \<lparr>SessionID = ''s'', Thought_a = ''x'', NextNeeded = None, ReviseStep = Some 3,
               CreateBranch = False, EstimatedTotal_a = 0\<rparr> = Some 3
   \<and> map_of (store1 ex_world) ''s'' = Some ex_session \<and> wf_world ex_world
   \<and> length (Thoughts ex_session) = 2
   \<and> (\<exists>w'. ContinueThinking \<lparr>SessionID = ''s'', Thought_a = ''x'', NextNeeded = None,
                               ReviseStep = Some 3, CreateBranch = False, EstimatedTotal_a = 0\<rparr>
                ex_now ex_world = Some (Inl (InvalidStepNumber 3), w')
          \<and> store1 w' = store1 ex_world
          \<and> thoughts_of (mem w') ex_session = thoughts_of (mem ex_world) ex_session)"
proof -
  let ?args = "\<lparr>SessionID = ''s'', Thought_a = ''x'', NextNeeded = None, ReviseStep = Some 3,
                 CreateBranch = False, EstimatedTotal_a = 0\<rparr>"
  have 1: "ReviseStep ?args = Some 3" by simp
  have 2: "map_of (store1 ex_world) (SessionID ?args) = Some ex_session"
    by (simp add: ex_world_def)
  have 3: "length (Thoughts ex_session) = 2" by (simp add: ex_session_def)
  from revise_out_of_range [OF 1 2 ex_world_wf, of ex_now] 2 3 ex_world_wf show ?thesis
    by auto
qed

text \<open>
  C6. For a session that is present and a step k with 1 \<le> k \<le> L, a revise call succeeds
  and stores a session whose thoughts are the old ones with the content of thought k
  replaced and its revised flag set: thought k keeps its index and its place, every
  other thought and the length are the same. Of the session's own fields only
  lastActivity and version differ; the version is the 64-bit sum of the old one and 1,
  which is the old one plus exactly 1 while that is below the greatest int \<open>2^63 - 1\<close>.
  The other sessions and their thoughts are as they were.
\<close>

theorem revise_in_range:
  assumes "ReviseStep args = Some k"
    and "map_of (store1 w) (SessionID args) = Some s"
    and "1 \<le> k" and "k \<le> int (length (Thoughts s))"
    and "wf_world w"
  shows "\<exists>text w' s'.
           ContinueThinking args now w = Some (Inr text, w')
         \<and> map_of (store1 w') (SessionID args) = Some s'
         \<and> thoughts_of (mem w') s' =
             (thoughts_of (mem w) s)
               [nat (k - 1) := (thoughts_of (mem w) s ! nat (k - 1))
                                 \<lparr>Content := Thought_a args, Revised := True\<rparr>]
         \<and> s'\<lparr>Thoughts := Thoughts s\<rparr> = s\<lparr>LastActivity := now 0, Version := Version s + 1\<rparr>
         \<and> (sint (Version s) < 2 ^ 63 - 1 \<longrightarrow> sint (Version s') = sint (Version s) + 1)
         \<and> (\<forall>sid' t. sid' \<noteq> SessionID args \<and> map_of (store1 w) sid' = Some t \<longrightarrow>
               map_of (store1 w') sid' = Some t \<and> thoughts_of (mem w') t = thoughts_of (mem w) t)"
proof -
  from revise_commits [OF assms(1-4), of now]
  obtain msg m' where
    ct: "ContinueThinking args now w =
       Some (Inr msg,
             \<lparr>store1 = AList.update (SessionID args)
                 (s\<lparr>Thoughts := [brk (mem w) ..< brk (mem w) + length (Thoughts s)],
                    LastActivity := now 0, Version := Version s + 1\<rparr>) (store1 w),
              mem = m'\<rparr>)"
    and ext: "mem_extends (mem w) m'"
    and vals: "allocated (mem w) s \<longrightarrow>
       map (thought_at m') [brk (mem w) ..< brk (mem w) + length (Thoughts s)] =
         (thoughts_of (mem w) s)
           [nat (k - 1) := (thoughts_of (mem w) s ! nat (k - 1))
                             \<lparr>Content := Thought_a args, Revised := True\<rparr>]"
    by blast
  let ?s' = "s\<lparr>Thoughts := [brk (mem w) ..< brk (mem w) + length (Thoughts s)],
                LastActivity := now 0, Version := Version s + 1\<rparr>"
  have new: "thoughts_of m' ?s' =
      (thoughts_of (mem w) s)
        [nat (k - 1) := (thoughts_of (mem w) s ! nat (k - 1))
                          \<lparr>Content := Thought_a args, Revised := True\<rparr>]"
    using wf_world_allocated [OF assms(5,2)] vals by (simp add: thoughts_of_def)
  have others: "\<forall>sid' t. map_of (store1 w) sid' = Some t \<longrightarrow>
      thoughts_of m' t = thoughts_of (mem w) t"
    using stored_thoughts_extends [OF assms(5) ext] by blast
  show ?thesis
    unfolding ct using new others by (auto simp: update_conv' sint_succ)
qed

theorem revise_in_range_witness:
  "map_of (store1 ex_world) ''s'' = Some ex_session \<and> (1::int) \<le> 1
   \<and> 1 \<le> int (length (Thoughts ex_session)) \<and> wf_world ex_world
   \<and> sint (Version ex_session) < 2 ^ 63 - 1
   \<and> (\<exists>text w' s'.
         ContinueThinking \<lparr>SessionID = ''s'', Thought_a = ''x'', NextNeeded = None,
                           ReviseStep = Some 1, CreateBranch = False, EstimatedTotal_a = 0\<rparr>
            ex_now ex_world = Some (Inr text, w')
       \<and> map_of (store1 w') ''s'' = Some s'
       \<and> thoughts_of (mem w') s' =
           [\<lparr>Index = 1, Content = ''x'', Created = 11, Revised = True, ParentIndex = Some 0\<rparr>,
            \<lparr>Index = 2, Content = ''step2'', Created = 12, Revised = False, ParentIndex = None\<rparr>]
       \<and> sint (Version s') = 3 \<and> LastActivity s' = 100 \<and> Status s' = ''active''
       \<and> CurrentThought s' = 2 \<and> EstimatedTotal s' = 3 \<and> Branches s' = [])"
proof -
  let ?args = "\<lparr>SessionID = ''s'', Thought_a = ''x'', NextNeeded = None, ReviseStep = Some 1,
                 CreateBranch = False, EstimatedTotal_a = 0\<rparr>"
  have 1: "ReviseStep ?args = Some 1" by simp
  have 2: "map_of (store1 ex_world) (SessionID ?args) = Some ex_session"
    by (simp add: ex_world_def)
  have 3: "(1::int) \<le> 1" "1 \<le> int (length (Thoughts ex_session))"
    by (simp_all add: ex_session_def)
  from revise_in_range [OF 1 2 3 ex_world_wf, of ex_now]
  obtain msg w' s' where
    a: "ContinueThinking ?args ex_now ex_world = Some (Inr msg, w')"
      "map_of (store1 w') ''s'' = Some s'"
      "thoughts_of (mem w') s' =
        (thoughts_of (mem ex_world) ex_session)
          [nat (1 - 1) := (thoughts_of (mem ex_world) ex_session ! nat (1 - 1))
                            \<lparr>Content := Thought_a ?args, Revised := True\<rparr>]"
      "s'\<lparr>Thoughts := Thoughts ex_session\<rparr> =
         ex_session\<lparr>LastActivity := ex_now 0, Version := Version ex_session + 1\<rparr>"
      "sint (Version ex_session) < 2 ^ 63 - 1 \<longrightarrow>
         sint (Version s') = sint (Version ex_session) + 1"
    by auto
  have 4: "sint (Version ex_session) < 2 ^ 63 - 1" by (simp add: ex_session_def)
  with a(5) have "sint (Version s') = 3" by (simp add: ex_session_def)
  moreover from a(4) have "LastActivity s' = 100 \<and> Status s' = ''active''
       \<and> CurrentThought s' = 2 \<and> EstimatedTotal s' = 3 \<and> Branches s' = []"
    by (cases s') (simp add: ex_session_def ex_now_def)
  ultimately show ?thesis
    using a(1,2,3) 2 3 4 ex_world_wf by (simp add: ex_world_thoughts)
qed


subsection \<open>Appending a thought\<close>

text \<open>
  C4. An append call (no reviseStep, createBranch false) on a session that is present
  succeeds and stores a session whose thoughts are the old ones followed by one new
  thought, with index = old length + 1, the content supplied, revised = false.
  currentThought is the new index and lastActivity the time read; estimatedTotal is the
  estimate supplied if that is positive and the old one otherwise; status is "completed"
  if nextNeeded was supplied as false and the old status otherwise; the version is the
  64-bit sum of the old one and 1, which is one more while the old one is below the
  greatest int \<open>2^63 - 1\<close>. The call fails only for a session that is absent, with the
  not-found error.
\<close>

theorem append_thought:
  assumes "ReviseStep args = None" and "\<not> CreateBranch args" and "wf_world w"
  shows "(map_of (store1 w) (SessionID args) = None \<longrightarrow>
            ContinueThinking args now w = Some (Inl (SessionNotFound (SessionID args)), w))
       \<and> (\<forall>s. map_of (store1 w) (SessionID args) = Some s \<longrightarrow>
            (\<exists>text w' s'.
               ContinueThinking args now w = Some (Inr text, w')
             \<and> map_of (store1 w') (SessionID args) = Some s'
             \<and> thoughts_of (mem w') s' =
                 thoughts_of (mem w) s @
                   [\<lparr>Index = int (length (Thoughts s)) + 1, Content = Thought_a args,
                     Created = now 0, Revised = False, ParentIndex = None\<rparr>]
             \<and> s'\<lparr>Thoughts := Thoughts s\<rparr> =
                 s\<lparr>CurrentThought := int (length (Thoughts s)) + 1,
                   LastActivity := now 1,
                   EstimatedTotal := (if EstimatedTotal_a args > 0 then EstimatedTotal_a args
                                      else EstimatedTotal s),
                   Status := (if NextNeeded args = Some False then ''completed''
                              else Status s),
                   Version := Version s + 1\<rparr>
             \<and> (sint (Version s) < 2 ^ 63 - 1 \<longrightarrow>
                  sint (Version s') = sint (Version s) + 1)))"
proof (intro conjI allI impI)
  assume "map_of (store1 w) (SessionID args) = None"
  then show "ContinueThinking args now w = Some (Inl (SessionNotFound (SessionID args)), w)"
    by (rule append_missing [OF assms(1,2)])
next
  fix s
  assume s: "map_of (store1 w) (SessionID args) = Some s"
  let ?b = "brk (mem w)" and ?L = "length (Thoughts s)"
  let ?t = "\<lparr>Index = int ?L + 1, Content = Thought_a args, Created = now 0,
             Revised = False, ParentIndex = None\<rparr>"
  let ?s' = "s\<lparr>Thoughts := [?b ..< ?b + ?L] @ [?b + ?L],
               CurrentThought := int ?L + 1,
               EstimatedTotal := (if EstimatedTotal_a args > 0 then EstimatedTotal_a args
                                  else EstimatedTotal s),
               Status := (if NextNeeded args = Some False then ''completed'' else Status s),
               LastActivity := now 1, Version := Version s + 1\<rparr>"
  from append_commits [OF assms(1,2) s, of now]
  obtain msg m' where
    ct: "ContinueThinking args now w =
       Some (Inr msg, \<lparr>store1 = AList.update (SessionID args) ?s' (store1 w), mem = m'\<rparr>)"
    and vals: "allocated (mem w) s \<longrightarrow>
       map (thought_at m') ([?b ..< ?b + ?L] @ [?b + ?L]) = thoughts_of (mem w) s @ [?t]"
    by blast
  have new: "thoughts_of m' ?s' = thoughts_of (mem w) s @ [?t]"
    using wf_world_allocated [OF assms(3) s] vals by (simp add: thoughts_of_def)
  show "\<exists>text w' s'.
       ContinueThinking args now w = Some (Inr text, w')
     \<and> map_of (store1 w') (SessionID args) = Some s'
     \<and> thoughts_of (mem w') s' = thoughts_of (mem w) s @ [?t]
     \<and> s'\<lparr>Thoughts := Thoughts s\<rparr> =
         s\<lparr>CurrentThought := int ?L + 1, LastActivity := now 1,
           EstimatedTotal := (if EstimatedTotal_a args > 0 then EstimatedTotal_a args
                              else EstimatedTotal s),
           Status := (if NextNeeded args = Some False then ''completed'' else Status s),
           Version := Version s + 1\<rparr>
     \<and> (sint (Version s) < 2 ^ 63 - 1 \<longrightarrow> sint (Version s') = sint (Version s) + 1)"
    unfolding ct using new by (auto simp: update_conv' sint_succ)
qed

theorem append_thought_witness:
  "wf_world ex_world \<and> map_of (store1 ex_world) ''s'' = Some ex_session
   \<and> sint (Version ex_session) < 2 ^ 63 - 1
   \<and> map_of (store1 ex_world) ''t'' = None
   \<and> ContinueThinking \<lparr>SessionID = ''t'', Thought_a = ''step3'', NextNeeded = Some False,
                        ReviseStep = None, CreateBranch = False, EstimatedTotal_a = 7\<rparr>
        ex_now ex_world = Some (Inl (SessionNotFound ''t''), ex_world)
   \<and> (\<exists>text w' s'.
         ContinueThinking \<lparr>SessionID = ''s'', Thought_a = ''step3'', NextNeeded = Some False,
                           ReviseStep = None, CreateBranch = False, EstimatedTotal_a = 7\<rparr>
            ex_now ex_world = Some (Inr text, w')
       \<and> map_of (store1 w') ''s'' = Some s'
       \<and> thoughts_of (mem w') s' =
           [\<lparr>Index = 1, Content = ''step1'', Created = 11, Revised = False, ParentIndex = Some 0\<rparr>,
            \<lparr>Index = 2, Content = ''step2'', Created = 12, Revised = False, ParentIndex = None\<rparr>,
            \<lparr>Index = 3, Content = ''step3'', Created = 100, Revised = False, ParentIndex = None\<rparr>]
       \<and> CurrentThought s' = 3 \<and> LastActivity s' = 101 \<and> EstimatedTotal s' = 7
       \<and> Status s' = ''completed'' \<and> sint (Version s') = 3)"
proof -
  let ?args = "\<lambda>sid. \<lparr>SessionID = sid, Thought_a = ''step3'', NextNeeded = Some False,
                 ReviseStep = None, CreateBranch = False, EstimatedTotal_a = 7\<rparr>"
  have 1: "map_of (store1 ex_world) ''s'' = Some ex_session"
    and 2: "map_of (store1 ex_world) ''t'' = None"
    by (simp_all add: ex_world_def)
  from append_thought [of "?args ''t''" ex_world ex_now] 2 ex_world_wf
  have 3: "ContinueThinking (?args ''t'') ex_now ex_world =
      Some (Inl (SessionNotFound ''t''), ex_world)" by simp
  from append_thought [of "?args ''s''" ex_world ex_now] 1 ex_world_wf
  obtain msg w' s' where
    a: "ContinueThinking (?args ''s'') ex_now ex_world = Some (Inr msg, w')"
      "map_of (store1 w') ''s'' = Some s'"
      "thoughts_of (mem w') s' =
         thoughts_of (mem ex_world) ex_session @
           [\<lparr>Index = int (length (Thoughts ex_session)) + 1, Content = ''step3'',
             Created = ex_now 0, Revised = False, ParentIndex = None\<rparr>]"
      "s'\<lparr>Thoughts := Thoughts ex_session\<rparr> =
         ex_session\<lparr>CurrentThought := int (length (Thoughts ex_session)) + 1,
                    LastActivity := ex_now 1, EstimatedTotal := 7, Status := ''completed'',
                    Version := Version ex_session + 1\<rparr>"
      "sint (Version ex_session) < 2 ^ 63 - 1 \<longrightarrow>
         sint (Version s') = sint (Version ex_session) + 1"
    by auto
  have 4: "sint (Version ex_session) < 2 ^ 63 - 1" by (simp add: ex_session_def)
  with a(5) have "sint (Version s') = 3" by (simp add: ex_session_def)
  moreover from a(4) have "CurrentThought s' = 3 \<and> LastActivity s' = 101
       \<and> EstimatedTotal s' = 7 \<and> Status s' = ''completed''"
    by (cases s') (simp add: ex_session_def ex_now_def)
  moreover from a(3) have "thoughts_of (mem w') s' =
      [\<lparr>Index = 1, Content = ''step1'', Created = 11, Revised = False, ParentIndex = Some 0\<rparr>,
       \<lparr>Index = 2, Content = ''step2'', Created = 12, Revised = False, ParentIndex = None\<rparr>,
       \<lparr>Index = 3, Content = ''step3'', Created = 100, Revised = False, ParentIndex = None\<rparr>]"
    unfolding ex_world_thoughts by (simp add: ex_session_def ex_now_def)
  ultimately show ?thesis
    using a(1,2) 1 2 3 4 ex_world_wf by simp
qed


subsection \<open>Snapshots\<close>

lemma SessionSnapshot_effect:
  assumes "map_of (store1 w) sid = Some s" and "SessionSnapshot sid w = (r, w1)"
  shows "r = Some (s\<lparr>Thoughts := [brk (mem w) ..< brk (mem w) + length (Thoughts s)]\<rparr>)"
    and "store1 w1 = store1 w"
    and "mem_extends (mem w) (mem w1)"
    and "brk (mem w1) = brk (mem w) + length (Thoughts s)"
    and "allocated (mem w) s \<Longrightarrow> thoughts_of (mem w1) (the r) = thoughts_of (mem w) s"
proof -
  obtain c m1 where cl: "clone s (mem w) = (c, m1)" by fastforce
  note ce = clone_effect [OF cl]
  from assms cl have e: "r = Some c" "w1 = w\<lparr>mem := m1\<rparr>"
    by (simp_all add: SessionSnapshot_def)
  from e ce(1) show "r = Some (s\<lparr>Thoughts := [brk (mem w) ..< brk (mem w) + length (Thoughts s)]\<rparr>)"
    by simp
  from e show "store1 w1 = store1 w" by simp
  from e ce(3) show "mem_extends (mem w) (mem w1)" by simp
  from e ce(2) show "brk (mem w1) = brk (mem w) + length (Thoughts s)" by simp
  assume "allocated (mem w) s"
  from ce(5) [OF this] e show "thoughts_of (mem w1) (the r) = thoughts_of (mem w) s" by simp
qed

text \<open>
  The thought objects of a snapshot are new: an assignment to one of them leaves the
  thoughts of every stored session as they were.
\<close>

lemma snapshot_thoughts_independent:
  assumes "wf_world w" and "map_of (store1 w) sid = Some s"
    and "SessionSnapshot sid w = (Some snap, w1)"
    and "write_Thought snap i t (mem w1) = Some m2"
    and "map_of (store1 w) sid' = Some s'"
  shows "thoughts_of m2 s' = thoughts_of (mem w) s'"
proof -
  note se = SessionSnapshot_effect [OF assms(2,3)]
  from assms(4) have i: "i < length (Thoughts snap)"
    and m2: "m2 = (mem w1)\<lparr>thought_at := (thought_at (mem w1))(Thoughts snap ! i := t)\<rparr>"
    by (auto simp: write_Thought_def split: if_splits)
  from se(1) i have "brk (mem w) \<le> Thoughts snap ! i" by auto
  with se(3) m2 have "mem_extends (mem w) m2"
    by (auto simp: mem_extends_def)
  from stored_thoughts_extends [OF assms(1) this assms(5)] show ?thesis .
qed

subsection \<open>Invariants of the store\<close>

lemma good_world_iff:
  "good_world w \<longleftrightarrow>
     distinct (map fst (store1 w)) \<and>
     (\<forall>k s. map_of (store1 w) k = Some s \<longrightarrow> allocated (mem w) s \<and> contiguous (mem w) s)"
  by (auto simp: good_world_def wf_world_def list_all_iff dest: map_of_SomeD)

lemma contiguous_extends:
  "mem_extends m m' \<Longrightarrow> allocated m s \<Longrightarrow> contiguous m s \<Longrightarrow> contiguous m' s"
  using thoughts_of_extends [of m m' s] by (simp add: contiguous_def)

lemma good_world_extends:
  "good_world w \<Longrightarrow> mem_extends (mem w) m' \<Longrightarrow> store1 w' = store1 w \<Longrightarrow> mem w' = m' \<Longrightarrow>
     good_world w'"
  using thoughts_of_extends contiguous_extends
  by (simp add: good_world_iff)

lemma good_world_update:
  assumes "good_world w" and "mem_extends (mem w) m'"
    and "allocated m' s'" and "contiguous m' s'"
  shows "good_world \<lparr>store1 = AList.update k s' (store1 w), mem = m'\<rparr>"
  using assms thoughts_of_extends [OF assms(2)] contiguous_extends [OF assms(2)]
  by (auto simp: good_world_iff distinct_update update_conv')

lemma good_world_wf: "good_world w \<Longrightarrow> wf_world w"
  by (simp add: good_world_def)

lemma allocated_upt: "brk m' = b + n \<Longrightarrow> allocated m' (s\<lparr>Thoughts := [b ..< b + n]\<rparr>)"
  by (simp add: allocated_def list_all_iff)

lemma StartThinking_good:
  assumes "good_world w"
  shows "good_world (snd (StartThinking args src now w))"
proof -
  let ?sid = "if SessionID_a args = [] then randText src else SessionID_a args"
  let ?s = "\<lparr>ID = ?sid, Problem = Problem_a args, Thoughts = [], CurrentThought = 0,
             EstimatedTotal = (if EstimatedSteps args = 0 then 5 else EstimatedSteps args),
             Status = ''active'', Created_s = now 0, LastActivity = now 1,
             Branches = [], Version = 0\<rparr>"
  have "snd (StartThinking args src now w) =
      \<lparr>store1 = AList.update ?sid ?s (store1 w), mem = mem w\<rparr>"
    by (simp add: StartThinking_def SetSession_def Let_def)
  moreover have "good_world \<lparr>store1 = AList.update ?sid ?s (store1 w), mem = mem w\<rparr>"
    by (rule good_world_update [OF assms mem_extends_refl])
       (simp_all add: allocated_def contiguous_def thoughts_of_def)
  ultimately show ?thesis by simp
qed

lemma ContinueThinking_good:
  assumes g: "good_world w"
  shows "\<exists>r w'. ContinueThinking args now w = Some (r, w') \<and> good_world w'"
proof (cases "map_of (store1 w) (SessionID args)")
  case None
  show ?thesis
  proof (cases "ReviseStep args")
    case (Some k)
    from revise_missing [OF Some None] g show ?thesis by auto
  next
    case no: None
    show ?thesis
    proof (cases "CreateBranch args")
      case True
      from branch_missing [OF no True None] g show ?thesis by auto
    next
      case False
      from append_missing [OF no False None] g show ?thesis by auto
    qed
  qed
next
  case (Some s)
  from g Some have al: "allocated (mem w) s" and co: "contiguous (mem w) s"
    by (simp_all add: good_world_iff)
  let ?b = "brk (mem w)" and ?L = "length (Thoughts s)"
  have lenT: "length (thoughts_of (mem w) s) = ?L" by (simp add: thoughts_of_def)
  show ?thesis
  proof (cases "ReviseStep args")
    case rs: (Some k)
    show ?thesis
    proof (cases "k < 1 \<or> int ?L < k")
      case True
      from revise_fails [OF rs Some True, of now] obtain m' where
        "ContinueThinking args now w = Some (Inl (InvalidStepNumber k), w\<lparr>mem := m'\<rparr>)"
        "mem_extends (mem w) m'" by blast
      with good_world_extends [OF g this(2), of "w\<lparr>mem := m'\<rparr>"] show ?thesis by simp
    next
      case False
      then have k: "1 \<le> k" "k \<le> int ?L" by simp_all
      let ?s' = "s\<lparr>Thoughts := [?b ..< ?b + ?L], LastActivity := now 0,
                   Version := Version s + 1\<rparr>"
      from revise_commits [OF rs Some k, of now] al obtain msg m' where
        ct: "ContinueThinking args now w =
           Some (Inr msg, \<lparr>store1 = AList.update (SessionID args) ?s' (store1 w), mem = m'\<rparr>)"
        and ext: "mem_extends (mem w) m'" and brk: "brk m' = ?b + ?L"
        and vals: "map (thought_at m') [?b ..< ?b + ?L] =
          (thoughts_of (mem w) s)
            [nat (k - 1) := (thoughts_of (mem w) s ! nat (k - 1))
                              \<lparr>Content := Thought_a args, Revised := True\<rparr>]"
        by blast
      have a': "allocated m' ?s'"
        using brk by (simp add: allocated_def list_all_iff)
      have "map Index (map (thought_at m') [?b ..< ?b + ?L]) = map Index (thoughts_of (mem w) s)"
        unfolding vals using k lenT
        by (simp add: map_update list_update_same_conv)
      with co have c': "contiguous m' ?s'"
        by (simp add: contiguous_def thoughts_of_def)
      from good_world_update [OF g ext a' c'] ct show ?thesis by simp
    qed
  next
    case no: None
    show ?thesis
    proof (cases "CreateBranch args")
      case True
      let ?bid = "SessionID args @ ''_branch_'' @ fmt_d (int (length (Branches s)) + 1)"
      let ?child = "\<lparr>ID = ?bid, Problem = Problem s @ '' (Alternative branch)'',
                      Thoughts = [?b + ?L ..< ?b + ?L + ?L], CurrentThought = int ?L,
                      EstimatedTotal = EstimatedTotal s, Status = ''active'',
                      Created_s = now 1, LastActivity = now 2, Branches = [], Version = 0\<rparr>"
      let ?parent = "s\<lparr>Thoughts := [?b ..< ?b + ?L], LastActivity := now 0,
                       Branches := Branches s @ [?bid], Version := Version s + 1\<rparr>"
      from branch_commits [OF no True Some, of now] al obtain msg m' where
        ct: "ContinueThinking args now w =
           Some (Inr msg, \<lparr>store1 = AList.update ?bid ?child
                              (AList.update (SessionID args) ?parent (store1 w)), mem = m'\<rparr>)"
        and ext: "mem_extends (mem w) m'" and brk: "brk m' = ?b + ?L + ?L"
        and vals: "map (thought_at m') [?b ..< ?b + ?L] = thoughts_of (mem w) s"
          "map (thought_at m') [?b + ?L ..< ?b + ?L + ?L] = thoughts_of (mem w) s"
        by blast
      have ap: "allocated m' ?parent" and ac: "allocated m' ?child"
        using brk by (simp_all add: allocated_def list_all_iff)
      from co vals have cp: "contiguous m' ?parent" and cc: "contiguous m' ?child"
        by (simp_all add: contiguous_def thoughts_of_def)
      let ?w1 = "\<lparr>store1 = AList.update (SessionID args) ?parent (store1 w), mem = m'\<rparr>"
      have g1: "good_world ?w1" by (rule good_world_update [OF g ext ap cp])
      have "good_world \<lparr>store1 = AList.update ?bid ?child (store1 ?w1), mem = m'\<rparr>"
        by (rule good_world_update [OF g1 _ ac cc]) (simp add: mem_extends_refl)
      with ct show ?thesis by simp
    next
      case False
      let ?s' = "s\<lparr>Thoughts := [?b ..< ?b + ?L] @ [?b + ?L],
                   CurrentThought := int ?L + 1,
                   EstimatedTotal := (if EstimatedTotal_a args > 0 then EstimatedTotal_a args
                                      else EstimatedTotal s),
                   Status := (if NextNeeded args = Some False then ''completed'' else Status s),
                   LastActivity := now 1, Version := Version s + 1\<rparr>"
      from append_commits [OF no False Some, of now] al obtain msg m' where
        ct: "ContinueThinking args now w =
           Some (Inr msg, \<lparr>store1 = AList.update (SessionID args) ?s' (store1 w), mem = m'\<rparr>)"
        and ext: "mem_extends (mem w) m'" and brk: "brk m' = ?b + ?L + 1"
        and vals: "map (thought_at m') ([?b ..< ?b + ?L] @ [?b + ?L]) =
          thoughts_of (mem w) s @
            [\<lparr>Index = int ?L + 1, Content = Thought_a args, Created = now 0,
              Revised = False, ParentIndex = None\<rparr>]"
        by blast
      have a': "allocated m' ?s'"
        using brk by (simp add: allocated_def list_all_iff)
      from co have c': "contiguous m' ?s'"
        unfolding contiguous_def thoughts_of_def
        using vals by (simp add: thoughts_of_def)
      from good_world_update [OF g ext a' c'] ct show ?thesis by simp
    qed
  qed
qed


lemma clone_all_extends: "clone_all al m = (cs, m') \<Longrightarrow> mem_extends m m'"
proof (induction al arbitrary: m cs m')
  case Nil
  then show ?case by (simp add: mem_extends_refl)
next
  case (Cons e al)
  obtain k s where e: "e = (k, s)" by (cases e)
  obtain c m1 where a: "clone s m = (c, m1)" by fastforce
  obtain cs' m2 where b: "clone_all al m1 = (cs', m2)" by fastforce
  from Cons.prems e a b have "m' = m2" by simp
  with clone_effect(3) [OF a] Cons.IH [OF b] show ?case
    by (blast intro: mem_extends_trans)
qed

lemma SessionSnapshot_extends:
  "SessionSnapshot sid w = (r, w1) \<Longrightarrow> store1 w1 = store1 w \<and> mem_extends (mem w) (mem w1)"
proof (cases "map_of (store1 w) sid")
  case None
  assume "SessionSnapshot sid w = (r, w1)"
  with None show ?thesis by (simp add: SessionSnapshot_def mem_extends_refl)
next
  case (Some s)
  assume "SessionSnapshot sid w = (r, w1)"
  from SessionSnapshot_effect(2,3) [OF Some this] show ?thesis by simp
qed

lemma SessionsSnapshot_extends:
  "SessionsSnapshot w = (r, w1) \<Longrightarrow> store1 w1 = store1 w \<and> mem_extends (mem w) (mem w1)"
proof -
  assume a: "SessionsSnapshot w = (r, w1)"
  obtain cs m1 where c: "clone_all (store1 w) (mem w) = (cs, m1)" by fastforce
  with a have "w1 = w\<lparr>mem := m1\<rparr>" by (simp add: SessionsSnapshot_def)
  with clone_all_extends [OF c] show ?thesis by simp
qed

lemma ReviewThinking_extends:
  "ReviewThinking args w = (r, w1) \<Longrightarrow> store1 w1 = store1 w \<and> mem_extends (mem w) (mem w1)"
proof -
  assume a: "ReviewThinking args w = (r, w1)"
  obtain q w2 where s: "SessionSnapshot (SessionID_r args) w = (q, w2)" by fastforce
  with a have "w1 = w2" by (auto simp: ReviewThinking_def split: option.splits)
  with SessionSnapshot_extends [OF s] show ?thesis by simp
qed

lemma ThinkingHistory_extends:
  "ThinkingHistory u w = (r, w1) \<Longrightarrow> store1 w1 = store1 w \<and> mem_extends (mem w) (mem w1)"
proof -
  assume a: "ThinkingHistory u w = (r, w1)"
  show ?thesis
  proof (cases u)
    case None
    with a show ?thesis by (simp add: ThinkingHistory_def mem_extends_refl)
  next
    case (Some p)
    obtain scheme host where p: "p = (scheme, host)" by (cases p)
    show ?thesis
    proof (cases "scheme \<noteq> ''thinking''")
      case True
      with a Some p show ?thesis by (simp add: ThinkingHistory_def mem_extends_refl)
    next
      case sch: False
      show ?thesis
      proof (cases "host = ''sessions''")
        case True
        obtain q w2 where s: "SessionsSnapshot w = (q, w2)" by fastforce
        with a Some p sch True have "w1 = w2" by (simp add: ThinkingHistory_def)
        with SessionsSnapshot_extends [OF s] show ?thesis by simp
      next
        case False
        obtain q w2 where s: "SessionSnapshot host w = (q, w2)" by fastforce
        with a Some p sch False have "w1 = w2"
          by (auto simp: ThinkingHistory_def split: option.splits)
        with SessionSnapshot_extends [OF s] show ?thesis by simp
      qed
    qed
  qed
qed

lemma handle_good:
  assumes "good_world w"
  shows "\<exists>w'. handle c w = Some w' \<and> good_world w'"
proof (cases c)
  case (CallStartThinking args src now)
  with StartThinking_good [OF assms] show ?thesis by simp
next
  case (CallContinueThinking args now)
  with ContinueThinking_good [OF assms, of args now] show ?thesis by auto
next
  case (CallReviewThinking args)
  obtain r w1 where a: "ReviewThinking args w = (r, w1)" by fastforce
  from ReviewThinking_extends [OF a] good_world_extends [OF assms, of "mem w1" w1]
  have "good_world w1" by simp
  with a CallReviewThinking show ?thesis by simp
next
  case (CallThinkingHistory u)
  obtain r w1 where a: "ThinkingHistory u w = (r, w1)" by fastforce
  from ThinkingHistory_extends [OF a] good_world_extends [OF assms, of "mem w1" w1]
  have "good_world w1" by simp
  with a CallThinkingHistory show ?thesis by simp
qed

lemma run_good:
  "good_world w \<Longrightarrow> \<exists>w'. run cs w = Some w' \<and> good_world w'"
proof (induction cs arbitrary: w)
  case Nil
  then show ?case by simp
next
  case (Cons c cs)
  from handle_good [OF Cons.prems, of c] obtain w1 where
    "handle c w = Some w1" "good_world w1" by blast
  with Cons.IH [OF this(2)] show ?case by simp
qed

lemma good_world_start: "good_world \<lparr>store1 = NewSessionStore, mem = m\<rparr>"
  by (simp add: good_world_def wf_world_def NewSessionStore_def)

lemma contiguous_nth:
  "contiguous m s \<Longrightarrow> i < length (Thoughts s) \<Longrightarrow> Index (thoughts_of m s ! i) = int i + 1"
proof -
  assume c: "contiguous m s" and i: "i < length (Thoughts s)"
  have "Index (thoughts_of m s ! i) = map Index (thoughts_of m s) ! i"
    using i by (simp add: thoughts_of_def)
  also have "\<dots> = map int [1 ..< Suc (length (Thoughts s))] ! i"
    using c by (simp add: contiguous_def)
  also have "\<dots> = int i + 1"
    using i by (simp del: upt_Suc)
  finally show ?thesis .
qed

lemma append_good:
  assumes g: "good_world w" and a: "is_append sid args"
    and s: "map_of (store1 w) sid = Some s"
  shows "\<exists>w' s'. handle (CallContinueThinking args now) w = Some w' \<and> good_world w'
           \<and> map_of (store1 w') sid = Some s'
           \<and> length (Thoughts s') = Suc (length (Thoughts s))
           \<and> map Content (thoughts_of (mem w') s') =
               map Content (thoughts_of (mem w) s) @ [Thought_a args]"
proof -
  from a have r: "ReviseStep args = None" "\<not> CreateBranch args" and sid: "SessionID args = sid"
    by (simp_all add: is_append_def)
  from g s have al: "allocated (mem w) s" by (simp add: good_world_iff)
  from append_commits [OF r s [folded sid], of now] al obtain msg m' s' where
    ct: "ContinueThinking args now w =
       Some (Inr msg, \<lparr>store1 = AList.update (SessionID args) s' (store1 w), mem = m'\<rparr>)"
    and s': "Thoughts s' = [brk (mem w) ..< brk (mem w) + length (Thoughts s)]
                @ [brk (mem w) + length (Thoughts s)]"
    and vals: "map (thought_at m') (Thoughts s') =
      thoughts_of (mem w) s @
        [\<lparr>Index = int (length (Thoughts s)) + 1, Content = Thought_a args, Created = now 0,
          Revised = False, ParentIndex = None\<rparr>]"
    by fastforce
  from ContinueThinking_good [OF g, of args now] ct
  have "good_world \<lparr>store1 = AList.update (SessionID args) s' (store1 w), mem = m'\<rparr>"
    by simp
  moreover have "thoughts_of m' s' =
      thoughts_of (mem w) s @
        [\<lparr>Index = int (length (Thoughts s)) + 1, Content = Thought_a args, Created = now 0,
          Revised = False, ParentIndex = None\<rparr>]"
    by (simp only: thoughts_of_def [of m' s'] vals)
  then have "map Content (thoughts_of m' s') =
      map Content (thoughts_of (mem w) s) @ [Thought_a args]"
    by simp
  moreover have "length (Thoughts s') = Suc (length (Thoughts s))"
    by (simp add: s')
  ultimately show ?thesis
    using ct sid by (simp add: update_conv')
qed

lemma appends_good:
  assumes "good_world w" and "\<forall>a \<in> set as. is_append sid (fst a)"
    and "map_of (store1 w) sid = Some s"
  shows "\<exists>w' s'. run (map append_call as) w = Some w' \<and> good_world w'
           \<and> map_of (store1 w') sid = Some s'
           \<and> length (Thoughts s') = length (Thoughts s) + length as
           \<and> map Content (thoughts_of (mem w') s') =
               map Content (thoughts_of (mem w) s) @ map (\<lambda>a. Thought_a (fst a)) as"
  using assms
proof (induction as arbitrary: w s)
  case Nil
  then show ?case by simp
next
  case (Cons a as)
  from Cons.prems(2) have a: "is_append sid (fst a)" by simp
  from append_good [OF Cons.prems(1) a Cons.prems(3), of "snd a"] obtain w1 s1 where
    1: "handle (append_call a) w = Some w1" "good_world w1" "map_of (store1 w1) sid = Some s1"
      "length (Thoughts s1) = Suc (length (Thoughts s))"
      "map Content (thoughts_of (mem w1) s1) =
         map Content (thoughts_of (mem w) s) @ [Thought_a (fst a)]"
    by (auto simp: append_call_def)
  from Cons.prems(2) have "\<forall>a \<in> set as. is_append sid (fst a)" by simp
  from Cons.IH [OF 1(2) this 1(3)] 1 show ?case by auto
qed


subsection \<open>Thought indices\<close>

text \<open>
  C8. After any sequence of calls of the four handlers on the empty store (every such
  sequence runs to its end), in every session of the store the thought at position i
  (counting from 0) has index i + 1. From there, any N append calls on one session, one
  after the other, leave it with the indices 1 .. L + N in order (L the number of
  thoughts before; 1 .. N for a session without thoughts) and with the contents in the
  order of the calls. The sequences of calls contain appends, revisions and branches, so
  each of them keeps the property, also for the thoughts copied into a branch.
\<close>

theorem thought_indices_contiguous:
  "\<exists>w. run cs \<lparr>store1 = NewSessionStore, mem = m\<rparr> = Some w
     \<and> (\<forall>sid s. map_of (store1 w) sid = Some s \<longrightarrow>
          (\<forall>i<length (Thoughts s). Index (thoughts_of (mem w) s ! i) = int i + 1)
        \<and> (\<forall>as. (\<forall>a \<in> set as. is_append sid (fst a)) \<longrightarrow>
             (\<exists>w' s'. run (map append_call as) w = Some w'
                \<and> map_of (store1 w') sid = Some s'
                \<and> map Index (thoughts_of (mem w') s') =
                    map int [1 ..< Suc (length (Thoughts s) + length as)]
                \<and> map Content (thoughts_of (mem w') s') =
                    map Content (thoughts_of (mem w) s) @ map (\<lambda>a. Thought_a (fst a)) as)))"
proof -
  from run_good [OF good_world_start, of cs m] obtain w where
    r: "run cs \<lparr>store1 = NewSessionStore, mem = m\<rparr> = Some w" and g: "good_world w"
    by blast
  have "(\<forall>i<length (Thoughts s). Index (thoughts_of (mem w) s ! i) = int i + 1)
        \<and> (\<forall>as. (\<forall>a \<in> set as. is_append sid (fst a)) \<longrightarrow>
             (\<exists>w' s'. run (map append_call as) w = Some w'
                \<and> map_of (store1 w') sid = Some s'
                \<and> map Index (thoughts_of (mem w') s') =
                    map int [1 ..< Suc (length (Thoughts s) + length as)]
                \<and> map Content (thoughts_of (mem w') s') =
                    map Content (thoughts_of (mem w) s) @ map (\<lambda>a. Thought_a (fst a)) as))"
    if s: "map_of (store1 w) sid = Some s" for sid s
  proof (intro conjI allI impI)
    from g s have "contiguous (mem w) s" by (simp add: good_world_iff)
    then show "Index (thoughts_of (mem w) s ! i) = int i + 1" if "i < length (Thoughts s)" for i
      using that by (rule contiguous_nth)
  next
    fix as :: "(ContinueThinkingArgs \<times> (nat \<Rightarrow> time)) list"
    assume "\<forall>a \<in> set as. is_append sid (fst a)"
    from appends_good [OF g this s] obtain w' s' where
      a: "run (map append_call as) w = Some w'" "good_world w'"
        "map_of (store1 w') sid = Some s'"
        "length (Thoughts s') = length (Thoughts s) + length as"
        "map Content (thoughts_of (mem w') s') =
           map Content (thoughts_of (mem w) s) @ map (\<lambda>a. Thought_a (fst a)) as"
      by blast
    from a(2,3) have "contiguous (mem w') s'" by (simp add: good_world_iff)
    with a(4) have "map Index (thoughts_of (mem w') s') =
        map int [1 ..< Suc (length (Thoughts s) + length as)]"
      by (simp add: contiguous_def)
    with a(1,3,5) show "\<exists>w' s'. run (map append_call as) w = Some w'
        \<and> map_of (store1 w') sid = Some s'
        \<and> map Index (thoughts_of (mem w') s') =
            map int [1 ..< Suc (length (Thoughts s) + length as)]
        \<and> map Content (thoughts_of (mem w') s') =
            map Content (thoughts_of (mem w) s) @ map (\<lambda>a. Thought_a (fst a)) as"
      by blast
  qed
  with r show ?thesis by blast
qed

theorem thought_indices_contiguous_witness:
  "\<exists>w s w' s'.
      run [ex_start] \<lparr>store1 = NewSessionStore, mem = mem0\<rparr> = Some w
    \<and> map_of (store1 w) ''s'' = Some s \<and> Thoughts s = []
    \<and> is_append ''s'' (ex_append_args ''a'' None)
    \<and> is_append ''s'' (ex_append_args ''b'' (Some False))
    \<and> run (map append_call [(ex_append_args ''a'' None, ex_now),
                             (ex_append_args ''b'' (Some False), ex_now)]) w = Some w'
    \<and> map_of (store1 w') ''s'' = Some s'
    \<and> map Index (thoughts_of (mem w') s') = [1, 2]
    \<and> map Content (thoughts_of (mem w') s') = [''a'', ''b'']"
proof -
  let ?as = "[(ex_append_args ''a'' None, ex_now), (ex_append_args ''b'' (Some False), ex_now)]"
  let ?s = "\<lparr>ID = ''s'', Problem = ''P'', Thoughts = [], CurrentThought = 0,
             EstimatedTotal = 3, Status = ''active'', Created_s = 100, LastActivity = 101,
             Branches = [], Version = 0\<rparr>"
  have ap: "is_append ''s'' (ex_append_args ''a'' None)"
    "is_append ''s'' (ex_append_args ''b'' (Some False))"
    by (simp_all add: is_append_def ex_append_args_def)
  have r: "run [ex_start] \<lparr>store1 = NewSessionStore, mem = mem0\<rparr> =
      Some \<lparr>store1 = [(''s'', ?s)], mem = mem0\<rparr>"
    by (simp add: ex_start_def StartThinking_def SetSession_def NewSessionStore_def ex_now_def
        Let_def)
  from thought_indices_contiguous [of "[ex_start]" mem0] obtain w where
    w: "run [ex_start] \<lparr>store1 = NewSessionStore, mem = mem0\<rparr> = Some w"
    and every: "\<forall>sid s. map_of (store1 w) sid = Some s \<longrightarrow>
          (\<forall>i<length (Thoughts s). Index (thoughts_of (mem w) s ! i) = int i + 1)
        \<and> (\<forall>as. (\<forall>a \<in> set as. is_append sid (fst a)) \<longrightarrow>
             (\<exists>w' s'. run (map append_call as) w = Some w'
                \<and> map_of (store1 w') sid = Some s'
                \<and> map Index (thoughts_of (mem w') s') =
                    map int [1 ..< Suc (length (Thoughts s) + length as)]
                \<and> map Content (thoughts_of (mem w') s') =
                    map Content (thoughts_of (mem w) s) @ map (\<lambda>a. Thought_a (fst a)) as))"
    by blast
  from w r have weq: "w = \<lparr>store1 = [(''s'', ?s)], mem = mem0\<rparr>" by simp
  have ms: "map_of (store1 w) ''s'' = Some ?s" by (simp add: weq)
  have all_as: "\<forall>a \<in> set ?as. is_append ''s'' (fst a)" using ap by simp
  from every ms have "\<forall>as. (\<forall>a \<in> set as. is_append ''s'' (fst a)) \<longrightarrow>
      (\<exists>w' s'. run (map append_call as) w = Some w'
         \<and> map_of (store1 w') ''s'' = Some s'
         \<and> map Index (thoughts_of (mem w') s') =
             map int [1 ..< Suc (length (Thoughts ?s) + length as)]
         \<and> map Content (thoughts_of (mem w') s') =
             map Content (thoughts_of (mem w) ?s) @ map (\<lambda>a. Thought_a (fst a)) as)"
    by blast
  with all_as obtain w' s' where
    a: "run (map append_call ?as) w = Some w'"
      "map_of (store1 w') ''s'' = Some s'"
      "map Index (thoughts_of (mem w') s') = map int [1 ..< Suc (length (Thoughts ?s) + length ?as)]"
      "map Content (thoughts_of (mem w') s') =
         map Content (thoughts_of (mem w) ?s) @ map (\<lambda>a. Thought_a (fst a)) ?as"
    by blast
  have "map int [1 ..< Suc (length (Thoughts ?s) + length ?as)] = [1, 2]" by code_simp
  with a(3) have i: "map Index (thoughts_of (mem w') s') = [1, 2]" by simp
  from a(4) have c: "map Content (thoughts_of (mem w') s') = [''a'', ''b'']"
    by (simp add: thoughts_of_def ex_append_args_def)
  from w ms a(1,2) i c ap show ?thesis
    by auto
qed


subsection \<open>Versions\<close>

lemma CompareAndSwap_version:
  assumes s: "map_of (store1 w) sid = Some s"
  shows "\<exists>r w'. CompareAndSwap sid updateFunc w = Some (r, w')
           \<and> (case r of
                 Inl err \<Rightarrow> map_of (store1 w') sid = Some s
               | Inr out \<Rightarrow> (\<exists>s'. map_of (store1 w') sid = Some s' \<and> Version s' = Version s + 1))"
proof -
  obtain c m1 where cl: "clone s (mem w) = (c, m1)" by fastforce
  obtain r m2 where f: "updateFunc c m1 = (r, m2)" by fastforce
  show ?thesis
  proof (cases r)
    case (Inl err)
    from CompareAndSwap_error [where f = updateFunc, OF s cl f [unfolded Inl]] s
    show ?thesis by simp
  next
    case (Inr p)
    obtain updated out where p: "p = (updated, out)" by (cases p)
    from CompareAndSwap_commits [where f = updateFunc, OF s cl f [unfolded Inr p]]
    show ?thesis by (simp add: update_conv')
  qed
qed

lemma ContinueThinking_version:
  assumes s: "map_of (store1 w) sid = Some s"
  shows "\<exists>r w' s'. ContinueThinking args now w = Some (r, w')
           \<and> map_of (store1 w') sid = Some s'
           \<and> (if set_session_id (CallContinueThinking args now) w = Some sid
               then Version s' = 0
               else Version s' = Version s \<or> Version s' = Version s + 1)"
proof (cases "map_of (store1 w) (SessionID args)")
  case None
  have "ContinueThinking args now w = Some (Inl (SessionNotFound (SessionID args)), w)"
  proof (cases "ReviseStep args")
    case (Some k)
    from revise_missing [OF Some None] show ?thesis .
  next
    case no: None
    show ?thesis
    proof (cases "CreateBranch args")
      case True
      from branch_missing [OF no True None] show ?thesis .
    next
      case False
      from append_missing [OF no False None] show ?thesis .
    qed
  qed
  with s None show ?thesis by simp
next
  case (Some p)
  let ?b = "brk (mem w)" and ?L = "length (Thoughts p)"
  show ?thesis
  proof (cases "ReviseStep args")
    case rs: (Some k)
    show ?thesis
    proof (cases "k < 1 \<or> int ?L < k")
      case True
      from revise_fails [OF rs Some True, of now] s rs show ?thesis by auto
    next
      case False
      then have k: "1 \<le> k" "k \<le> int ?L" by simp_all
      from revise_commits [OF rs Some k, of now] obtain msg m' where
        "ContinueThinking args now w =
           Some (Inr msg, \<lparr>store1 = AList.update (SessionID args)
               (p\<lparr>Thoughts := [?b ..< ?b + ?L], LastActivity := now 0,
                  Version := Version p + 1\<rparr>) (store1 w), mem = m'\<rparr>)"
        by blast
      with s Some rs show ?thesis by (auto simp: update_conv')
    qed
  next
    case no: None
    show ?thesis
    proof (cases "CreateBranch args")
      case True
      let ?bid = "SessionID args @ ''_branch_'' @ fmt_d (int (length (Branches p)) + 1)"
      from branch_commits [OF no True Some, of now] obtain msg m' child parent where
        "ContinueThinking args now w =
           Some (Inr msg, \<lparr>store1 = AList.update ?bid child
                              (AList.update (SessionID args) parent (store1 w)), mem = m'\<rparr>)"
        "Version child = 0" "Version parent = Version p + 1"
        by fastforce
      with s Some no True show ?thesis by (auto simp: update_conv')
    next
      case False
      from append_commits [OF no False Some, of now] obtain msg m' s' where
        "ContinueThinking args now w =
           Some (Inr msg, \<lparr>store1 = AList.update (SessionID args) s' (store1 w), mem = m'\<rparr>)"
        "Version s' = Version p + 1"
        by fastforce
      with s Some no False show ?thesis by (auto simp: update_conv')
    qed
  qed
qed

lemma handle_version:
  assumes s: "map_of (store1 w) sid = Some s"
  shows "\<exists>w' s'. handle c w = Some w' \<and> map_of (store1 w') sid = Some s'
           \<and> (if set_session_id c w = Some sid then Version s' = 0
               else Version s' = Version s \<or> Version s' = Version s + 1)"
proof (cases c)
  case (CallStartThinking args src now)
  with s show ?thesis
    by (simp add: StartThinking_def SetSession_def Let_def update_conv')
next
  case (CallContinueThinking args now)
  from ContinueThinking_version [OF s, of args now] obtain r w' s' where
    a: "ContinueThinking args now w = Some (r, w')" "map_of (store1 w') sid = Some s'"
      "if set_session_id (CallContinueThinking args now) w = Some sid then Version s' = 0
       else Version s' = Version s \<or> Version s' = Version s + 1"
    by blast
  from a(1) have "handle (CallContinueThinking args now) w = Some w'" by simp
  with a(2,3) show ?thesis unfolding CallContinueThinking by blast
next
  case (CallReviewThinking args)
  obtain r w1 where a: "ReviewThinking args w = (r, w1)" by fastforce
  from ReviewThinking_extends [OF a] a s CallReviewThinking show ?thesis by simp
next
  case (CallThinkingHistory u)
  obtain r w1 where a: "ThinkingHistory u w = (r, w1)" by fastforce
  from ThinkingHistory_extends [OF a] a s CallThinkingHistory show ?thesis by simp
qed

lemma version_trace_steps:
  "never_set sid cs w \<Longrightarrow> map_of (store1 w) sid = Some s \<Longrightarrow>
   sint (Version s) + int (length cs) < 2 ^ 63 \<Longrightarrow>
     \<exists>vs. version_trace sid cs w = map Some vs \<and> length vs = length cs
          \<and> unit_steps (sint (Version s)) (map sint vs)"
proof (induction cs arbitrary: w s)
  case Nil
  then show ?case by simp
next
  case (Cons c cs)
  from Cons.prems(1) have ns: "set_session_id c w \<noteq> Some sid" by simp
  from handle_version [OF Cons.prems(2), of c] ns obtain w1 s1 where
    h: "handle c w = Some w1" "map_of (store1 w1) sid = Some s1"
      "Version s1 = Version s \<or> Version s1 = Version s + 1"
    by auto
  from Cons.prems(3) have "sint (Version s) < 2 ^ 63 - 1" by simp
  from sint_succ [OF this] h(3)
  have st: "sint (Version s1) = sint (Version s) \<or> sint (Version s1) = sint (Version s) + 1"
    by auto
  with Cons.prems(3) have bd: "sint (Version s1) + int (length cs) < 2 ^ 63" by auto
  from Cons.prems(1) h(1) have "never_set sid cs w1" by simp
  from Cons.IH [OF this h(2) bd] obtain vs where
    "version_trace sid cs w1 = map Some vs" "length vs = length cs"
    "unit_steps (sint (Version s1)) (map sint vs)"
    by blast
  with h st have "version_trace sid (c # cs) w = map Some (Version s1 # vs)
      \<and> length (Version s1 # vs) = length (c # cs)
      \<and> unit_steps (sint (Version s)) (map sint (Version s1 # vs))"
    by simp
  then show ?case by blast
qed


text \<open>
  C1, as stated, fails: StartThinking stores a new session with version 0 under an id
  that is present. In the run start "s", append to "s", start "s" the versions of "s"
  after the three calls are 0, 1, 0.
\<close>

theorem version_reset_counterexample:
  "map (map_option sint)
     (version_trace ''s''
        [ex_start, append_call (ex_append_args ''a'' None, ex_now), ex_start] world0)
     = [Some 0, Some 1, Some 0]
   \<and> \<not> unit_steps 0 [0, 1, 0]"
  by code_simp

text \<open>
  C1, amended. For a session that is present, a call of CompareAndSwap returns; when it
  commits, the version of the session is the 64-bit sum of the version before and 1,
  which is one more than before while the version is below the greatest int
  \<open>2^63 - 1\<close>, and when the update function fails the session is as it was. Across any
  sequence of calls of the four handlers in which SetSession never stores a new session
  under the id of the session (no StartThinking with that id, no branch whose derived
  id is that id) and that is too short to take the version to \<open>2^63\<close>, every call
  returns and the version of the session after each call is the version before it or
  that version plus 1: it never decreases and never skips a value.
\<close>

theorem version_changes_by_one:
  assumes "map_of (store1 w) sid = Some s"
  shows "(\<exists>r w'. CompareAndSwap sid updateFunc w = Some (r, w')
            \<and> (case r of
                  Inl err \<Rightarrow> map_of (store1 w') sid = Some s
                | Inr out \<Rightarrow>
                    (\<exists>s'. map_of (store1 w') sid = Some s' \<and> Version s' = Version s + 1
                        \<and> (sint (Version s) < 2 ^ 63 - 1 \<longrightarrow>
                             sint (Version s') = sint (Version s) + 1))))
       \<and> (never_set sid cs w \<and> sint (Version s) + int (length cs) < 2 ^ 63 \<longrightarrow>
            (\<exists>vs. version_trace sid cs w = map Some vs \<and> length vs = length cs
                 \<and> unit_steps (sint (Version s)) (map sint vs)))"
proof -
  from CompareAndSwap_version [OF assms, of updateFunc] obtain r w' where
    a: "CompareAndSwap sid updateFunc w = Some (r, w')"
    and b: "case r of
              Inl err \<Rightarrow> map_of (store1 w') sid = Some s
            | Inr out \<Rightarrow> (\<exists>s'. map_of (store1 w') sid = Some s' \<and> Version s' = Version s + 1)"
    by blast
  have "case r of
          Inl err \<Rightarrow> map_of (store1 w') sid = Some s
        | Inr out \<Rightarrow>
            (\<exists>s'. map_of (store1 w') sid = Some s' \<and> Version s' = Version s + 1
                \<and> (sint (Version s) < 2 ^ 63 - 1 \<longrightarrow>
                     sint (Version s') = sint (Version s) + 1))"
  proof (cases r)
    case (Inl err)
    with b show ?thesis by simp
  next
    case (Inr out)
    with b obtain s' where "map_of (store1 w') sid = Some s'" "Version s' = Version s + 1"
      by auto
    with sint_succ [of "Version s"] Inr show ?thesis by auto
  qed
  with a version_trace_steps [OF _ assms, of cs] show ?thesis by blast
qed

theorem version_changes_by_one_witness:
  "map_of (store1 ex_world) ''s'' = Some ex_session \<and> sint (Version ex_session) = 2
   \<and> never_set ''s''
        [append_call (ex_append_args ''a'' None, ex_now),
         CallContinueThinking (ex_revise_args 1 ''b'') ex_now,
         CallContinueThinking (ex_revise_args 7 ''c'') ex_now] ex_world
   \<and> (\<exists>w' s'. CompareAndSwap ''s'' (appendFunc (ex_append_args ''a'' None) ex_now) ex_world
                  = Some (Inr (3, progress_text 3 3, statusMsg_text ''active''), w')
          \<and> map_of (store1 w') ''s'' = Some s' \<and> sint (Version s') = 3)
   \<and> map (map_option sint) (version_trace ''s''
        [append_call (ex_append_args ''a'' None, ex_now),
         CallContinueThinking (ex_revise_args 1 ''b'') ex_now,
         CallContinueThinking (ex_revise_args 7 ''c'') ex_now] ex_world)
      = map Some [3, 4, 4]
   \<and> unit_steps 2 [3, 4, 4]"
proof -
  let ?cs = "[append_call (ex_append_args ''a'' None, ex_now),
         CallContinueThinking (ex_revise_args 1 ''b'') ex_now,
         CallContinueThinking (ex_revise_args 7 ''c'') ex_now]"
  have 1: "map_of (store1 ex_world) ''s'' = Some ex_session"
    by (simp add: ex_world_def)
  have 2: "never_set ''s'' ?cs ex_world" by code_simp
  have 3: "version_trace ''s'' ?cs ex_world = map Some [3, 4, 4]" by code_simp
  have 4: "fst (the (CompareAndSwap ''s'' (appendFunc (ex_append_args ''a'' None) ex_now) ex_world))
      = Inr (3, progress_text 3 3, statusMsg_text ''active'')" by code_simp
  have 5: "sint (Version ex_session) = 2" by (simp add: ex_session_def)
  then have 6: "sint (Version ex_session) < 2 ^ 63 - 1"
    and 7: "sint (Version ex_session) + int (length ?cs) < 2 ^ 63" by simp_all
  from version_changes_by_one [OF 1, of "appendFunc (ex_append_args ''a'' None) ex_now" ?cs] 2 7
  obtain r w' vs where
    a: "CompareAndSwap ''s'' (appendFunc (ex_append_args ''a'' None) ex_now) ex_world = Some (r, w')"
      "case r of Inl err \<Rightarrow> map_of (store1 w') ''s'' = Some ex_session
       | Inr out \<Rightarrow> (\<exists>s'. map_of (store1 w') ''s'' = Some s' \<and> Version s' = Version ex_session + 1
            \<and> (sint (Version ex_session) < 2 ^ 63 - 1 \<longrightarrow>
                 sint (Version s') = sint (Version ex_session) + 1))"
    and b: "version_trace ''s'' ?cs ex_world = map Some vs"
      "unit_steps (sint (Version ex_session)) (map sint vs)"
    by blast
  from a(1) 4 have r: "r = Inr (3, progress_text 3 3, statusMsg_text ''active'')" by simp
  with a(2) 6 obtain s' where s': "map_of (store1 w') ''s'' = Some s'"
    "sint (Version s') = sint (Version ex_session) + 1"
    by auto
  from s'(2) 5 have v: "sint (Version s') = 3" by simp
  have "map Some vs = map Some [3, 4, 4]" using b(1) by (simp only: 3)
  then have vs: "vs = [3, 4, 4]" by auto
  from b(2) have u: "unit_steps 2 [3, 4, 4]" unfolding vs 5 by simp
  have t: "map (map_option sint) (version_trace ''s'' ?cs ex_world) = map Some [3, 4, 4]"
    unfolding 3 by simp
  have "\<exists>w' s'. CompareAndSwap ''s'' (appendFunc (ex_append_args ''a'' None) ex_now) ex_world
                  = Some (Inr (3, progress_text 3 3, statusMsg_text ''active''), w')
          \<and> map_of (store1 w') ''s'' = Some s' \<and> sint (Version s') = 3"
    using a(1) r s'(1) v by blast
  with 1 2 5 t u show ?thesis by (intro conjI)
qed


subsection \<open>Concurrent append calls\<close>

lemma filter_update_keep:
  "i < length xs \<Longrightarrow> \<not> P (xs ! i) \<Longrightarrow> \<not> P x \<Longrightarrow> filter P (xs[i := x]) = filter P xs"
proof (induction xs arbitrary: i)
  case Nil
  then show ?case by simp
next
  case (Cons y ys)
  then show ?case by (cases i) auto
qed

lemma filter_update_new:
  "i < length xs \<Longrightarrow> \<not> P (xs ! i) \<Longrightarrow> P x \<Longrightarrow>
     mset (filter P (xs[i := x])) = add_mset x (mset (filter P xs))"
proof (induction xs arbitrary: i)
  case Nil
  then show ?case by simp
next
  case (Cons y ys)
  then show ?case by (cases i) auto
qed

lemma filter_update_new_length:
  "i < length xs \<Longrightarrow> \<not> P (xs ! i) \<Longrightarrow> P x \<Longrightarrow>
     length (filter P (xs[i := x])) = Suc (length (filter P xs))"
proof (induction xs arbitrary: i)
  case Nil
  then show ?case by simp
next
  case (Cons y ys)
  then show ?case by (cases i) auto
qed

lemma filter_update_new_map:
  assumes "i < length xs" and "\<not> P (xs ! i)" and "P x"
  shows "mset (map f (filter P (xs[i := x]))) = add_mset (f x) (mset (map f (filter P xs)))"
proof -
  have "image_mset f (mset (filter P (xs[i := x]))) = image_mset f (add_mset x (mset (filter P xs)))"
    by (simp only: filter_update_new [OF assms])
  then show ?thesis by simp
qed

lemma map_update_same:
  "i < length xs \<Longrightarrow> f x = f (xs ! i) \<Longrightarrow> map f (xs[i := x]) = map f xs"
  by (simp add: map_update list_update_same_conv)

lemma wf_world_extends:
  "wf_world w \<Longrightarrow> mem_extends (mem w) (mem w') \<Longrightarrow> store1 w' = store1 w \<Longrightarrow> wf_world w'"
  using thoughts_of_extends by (simp add: wf_world_iff)

lemma caller_ok_extends:
  assumes "mem_extends m m'" and "allocated m s" and "caller_ok m s c"
  shows "caller_ok m' s c"
proof (cases "call_at c")
  case AtRead
  then show ?thesis by (simp add: caller_ok_def)
next
  case (AtUpdate sessionCopy oldVersion)
  with assms(3) have "allocated m sessionCopy" by (simp add: caller_ok_def)
  from thoughts_of_extends [OF assms(1) this] thoughts_of_extends [OF assms(1,2)]
    assms(3) AtUpdate
  show ?thesis by (simp add: caller_ok_def)
next
  case (AtCommit updated out oldVersion)
  with assms(3) have "allocated m updated" by (simp add: caller_ok_def)
  from thoughts_of_extends [OF assms(1) this] thoughts_of_extends [OF assms(1,2)]
    assms(3) AtCommit
  show ?thesis by (simp add: caller_ok_def)
next
  case (Returned r)
  with assms(3) show ?thesis by (simp add: caller_ok_def)
qed

text \<open>A step of a caller that does not write the store and does not return.\<close>

lemma inv_local_step:
  assumes inv: "appends_inv sid v0 ts0 argss (cs, w)"
    and i: "i < length cs"
    and c': "call_args c' = call_args (cs ! i)" "\<not> is_returned c'" "\<not> is_returned (cs ! i)"
    and w': "store1 w' = store1 w" "mem_extends (mem w) (mem w')"
    and ok: "\<And>s. map_of (store1 w) sid = Some s \<Longrightarrow> allocated (mem w) s \<Longrightarrow>
                caller_ok (mem w) s (cs ! i) \<Longrightarrow> caller_ok (mem w') s c'"
  shows "appends_inv sid v0 ts0 argss (cs[i := c'], w')"
proof -
  from inv obtain s where
    wf: "wf_world w" and ar: "map call_args cs = argss"
    and bd: "v0 + int (length argss) < 2 ^ 63"
    and s: "map_of (store1 w) sid = Some s"
    and v: "sint (Version s) = v0 + int (length (filter is_returned cs))"
    and l: "length (Thoughts s) = length ts0 + length (filter is_returned cs)"
    and t: "take (length ts0) (thoughts_of (mem w) s) = ts0"
    and co: "contiguous (mem w) s"
    and ms: "mset (map Content (drop (length ts0) (thoughts_of (mem w) s))) =
               mset (map (\<lambda>c. Thought_a (call_args c)) (filter is_returned cs))"
    and oks: "\<forall>c \<in> set cs. caller_ok (mem w) s c"
    by (auto simp: appends_inv_def)
  have al: "allocated (mem w) s" by (rule wf_world_allocated [OF wf s])
  have th: "thoughts_of (mem w') s = thoughts_of (mem w) s"
    using thoughts_of_extends [OF w'(2) al] by simp
  have f: "filter is_returned (cs[i := c']) = filter is_returned cs"
    by (rule filter_update_keep [OF i c'(3,2)])
  have "wf_world w'" by (rule wf_world_extends [OF wf w'(2,1)])
  moreover have "map call_args (cs[i := c']) = argss"
    using map_update_same [OF i, of call_args c'] c'(1) ar by simp
  moreover have "contiguous (mem w') s" by (rule contiguous_extends [OF w'(2) al co])
  moreover have "\<forall>c \<in> set (cs[i := c']). caller_ok (mem w') s c"
  proof
    fix c assume "c \<in> set (cs[i := c'])"
    then have "c = c' \<or> c \<in> set cs"
      using set_update_subset_insert [of cs i c'] by auto
    then show "caller_ok (mem w') s c"
    proof
      assume "c = c'"
      with ok [OF s al] oks i show ?thesis by simp
    next
      assume "c \<in> set cs"
      with oks have "caller_ok (mem w) s c" by blast
      from caller_ok_extends [OF w'(2) al this] show ?thesis .
    qed
  qed
  moreover have "take (length ts0) (thoughts_of (mem w') s) = ts0"
    by (simp only: th t)
  moreover have "mset (map Content (drop (length ts0) (thoughts_of (mem w') s))) =
      mset (map (\<lambda>c. Thought_a (call_args c)) (filter is_returned cs))"
    by (simp only: th ms)
  moreover have "map_of (store1 w') sid = Some s"
    by (simp only: w'(1) s)
  ultimately show ?thesis
    unfolding appends_inv_def prod.case f
    using v l bd by blast
qed


lemma caller_ok_newer:
  assumes "caller_ok m s c" and "sint (Version s') = sint (Version s) + 1"
  shows "caller_ok m s' c"
  using assms by (cases "call_at c") (auto simp: caller_ok_def)

lemma thoughts_of_Version [simp]: "thoughts_of m (u\<lparr>Version := v\<rparr>) = thoughts_of m u"
  by (simp add: thoughts_of_def)

lemma allocated_Version [simp]: "allocated m (u\<lparr>Version := v\<rparr>) = allocated m u"
  by (simp add: allocated_def)

text \<open>The step of a caller that commits.\<close>

lemma inv_commit_step:
  assumes inv: "appends_inv sid v0 ts0 argss (cs, w)"
    and i: "i < length cs"
    and s: "map_of (store1 w) sid = Some s"
    and at: "call_at (cs ! i) = AtCommit updated out (Version s)"
    and c': "call_args c' = call_args (cs ! i)" "call_at c' = Returned (Inr msg)"
  shows "appends_inv sid v0 ts0 argss
           (cs[i := c'],
            w\<lparr>store1 := AList.update sid (updated\<lparr>Version := Version s + 1\<rparr>) (store1 w)\<rparr>)"
proof -
  let ?s' = "updated\<lparr>Version := Version s + 1\<rparr>"
  let ?w' = "w\<lparr>store1 := AList.update sid ?s' (store1 w)\<rparr>"
  let ?n = "length (filter is_returned cs)"
  from inv s have
    wf: "wf_world w" and ar: "map call_args cs = argss"
    and bd: "v0 + int (length argss) < 2 ^ 63"
    and v: "sint (Version s) = v0 + int ?n"
    and l: "length (Thoughts s) = length ts0 + ?n"
    and t: "take (length ts0) (thoughts_of (mem w) s) = ts0"
    and co: "contiguous (mem w) s"
    and ms: "mset (map Content (drop (length ts0) (thoughts_of (mem w) s))) =
               mset (map (\<lambda>c. Thought_a (call_args c)) (filter is_returned cs))"
    and oks: "\<forall>c \<in> set cs. caller_ok (mem w) s c"
    by (auto simp: appends_inv_def)
  from oks i have "caller_ok (mem w) s (cs ! i)" by simp
  with at obtain t where
    au: "allocated (mem w) updated"
    and tu: "thoughts_of (mem w) updated = thoughts_of (mem w) s @ [t]"
    and it: "Index t = int (length (Thoughts s)) + 1"
    and ct: "Content t = Thought_a (call_args (cs ! i))"
    by (auto simp: caller_ok_def)
  have lt: "length (thoughts_of (mem w) s) = length (Thoughts s)"
    by (simp add: thoughts_of_def)
  have nr: "\<not> is_returned (cs ! i)" using at by (simp add: is_returned_def)
  have r': "is_returned c'" using c'(2) by (simp add: is_returned_def)
  have n': "length (filter is_returned (cs[i := c'])) = Suc ?n"
    by (rule filter_update_new_length [OF i nr r'])
  have "wf_world \<lparr>store1 = AList.update sid ?s' (store1 w), mem = mem w\<rparr>"
    by (rule wf_world_update [OF wf mem_extends_refl]) (simp add: au)
  then have 1: "wf_world ?w'" by (simp add: wf_world_def)
  have 2: "map call_args (cs[i := c']) = argss"
    using map_update_same [OF i, of call_args c'] c'(1) ar by simp
  have 3: "map_of (store1 ?w') sid = Some ?s'" by (simp add: update_conv')
  have "Suc ?n \<le> length (cs[i := c'])" unfolding n' [symmetric] by (rule length_filter_le)
  moreover have "length cs = length argss" using arg_cong [OF ar, of length] by simp
  ultimately have "sint (Version s) < 2 ^ 63 - 1" using v bd by simp
  from sint_succ [OF this] have up: "sint (Version ?s') = sint (Version s) + 1" by simp
  have 4: "sint (Version ?s') = v0 + int (length (filter is_returned (cs[i := c'])))"
    using v n' up by simp
  have "length (Thoughts updated) = Suc (length (Thoughts s))"
    using arg_cong [OF tu, of length] by (simp add: thoughts_of_def)
  then have 5: "length (Thoughts ?s') = length ts0 + length (filter is_returned (cs[i := c']))"
    using l n' by simp
  have 6: "take (length ts0) (thoughts_of (mem ?w') ?s') = ts0"
    using t l lt by (simp add: tu)
  have "map Index (thoughts_of (mem w) updated) = map int [1 ..< Suc (Suc (length (Thoughts s)))]"
    using co it by (simp add: tu contiguous_def)
  then have 7: "contiguous (mem ?w') ?s'"
    using \<open>length (Thoughts updated) = Suc (length (Thoughts s))\<close>
    by (simp add: contiguous_def)
  have "mset (map Content (drop (length ts0) (thoughts_of (mem w) updated))) =
      add_mset (Content t) (mset (map Content (drop (length ts0) (thoughts_of (mem w) s))))"
    using l lt by (simp add: tu)
  also have "\<dots> = add_mset (Thought_a (call_args c'))
      (mset (map (\<lambda>c. Thought_a (call_args c)) (filter is_returned cs)))"
    by (simp only: ms ct c'(1))
  also have "\<dots> = mset (map (\<lambda>c. Thought_a (call_args c)) (filter is_returned (cs[i := c'])))"
    by (rule filter_update_new_map [OF i nr r', symmetric])
  finally have 8: "mset (map Content (drop (length ts0) (thoughts_of (mem ?w') ?s'))) =
      mset (map (\<lambda>c. Thought_a (call_args c)) (filter is_returned (cs[i := c'])))"
    by simp
  have 9: "\<forall>c \<in> set (cs[i := c']). caller_ok (mem ?w') ?s' c"
  proof
    fix c assume "c \<in> set (cs[i := c'])"
    then have "c = c' \<or> c \<in> set cs"
      using set_update_subset_insert [of cs i c'] by auto
    then show "caller_ok (mem ?w') ?s' c"
    proof
      assume "c = c'"
      with c'(2) show ?thesis by (simp add: caller_ok_def)
    next
      assume "c \<in> set cs"
      with oks have "caller_ok (mem w) s c" by blast
      from caller_ok_newer [OF this up] show ?thesis by simp
    qed
  qed
  from 1 2 3 4 5 6 7 8 9 bd show ?thesis
    unfolding appends_inv_def prod.case by blast
qed

lemma appendFunc_effect:
  "\<exists>updated out m2 t. appendFunc a now sessionCopy m = (Inr (updated, out), m2)
      \<and> mem_extends m m2
      \<and> (allocated m sessionCopy \<longrightarrow>
           allocated m2 updated \<and> thoughts_of m2 updated = thoughts_of m sessionCopy @ [t])
      \<and> Index t = int (length (Thoughts sessionCopy)) + 1 \<and> Content t = Thought_a a"
proof -
  let ?t = "\<lparr>Index = int (length (Thoughts sessionCopy)) + 1, Content = Thought_a a,
             Created = now 0, Revised = False, ParentIndex = None\<rparr>"
  obtain p m2 where nt: "new_Thought ?t m = (p, m2)" by fastforce
  then have p: "p = brk m" "brk m2 = Suc (brk m)" "thought_at m2 (brk m) = ?t"
    by (auto simp: new_Thought_def)
  have ext: "mem_extends m m2" by (rule new_Thought_extends [OF nt])
  have "\<exists>updated out. appendFunc a now sessionCopy m = (Inr (updated, out), m2)
      \<and> Thoughts updated = Thoughts sessionCopy @ [p]"
    using nt by (simp add: appendFunc_def Let_def)
  then obtain updated out where f: "appendFunc a now sessionCopy m = (Inr (updated, out), m2)"
    and u: "Thoughts updated = Thoughts sessionCopy @ [p]"
    by blast
  have "allocated m2 updated \<and> thoughts_of m2 updated = thoughts_of m sessionCopy @ [?t]"
    if al: "allocated m sessionCopy"
  proof -
    from thoughts_of_extends [OF ext al]
    have "thoughts_of m2 sessionCopy = thoughts_of m sessionCopy" "allocated m2 sessionCopy"
      by simp_all
    with u p show ?thesis
      by (simp add: thoughts_of_def allocated_def)
  qed
  then have al: "allocated m sessionCopy \<longrightarrow>
      allocated m2 updated \<and> thoughts_of m2 updated = thoughts_of m sessionCopy @ [?t]"
    by blast
  show ?thesis
    apply (rule exI [of _ updated], rule exI [of _ out], rule exI [of _ m2], rule exI [of _ ?t])
    apply (insert f ext al)
    apply simp
    done
qed


lemma caller_step_inv:
  assumes inv: "appends_inv sid v0 ts0 argss (cs, w)"
    and app: "\<forall>a \<in> set argss. is_append sid a"
    and i: "i < length cs"
    and st: "caller_step now (cs ! i) w = (c', w')"
  shows "appends_inv sid v0 ts0 argss (cs[i := c'], w')"
proof -
  let ?c = "cs ! i"
  from inv obtain s where
    wf: "wf_world w" and ar: "map call_args cs = argss"
    and s: "map_of (store1 w) sid = Some s"
    by (auto simp: appends_inv_def)
  have al: "allocated (mem w) s" by (rule wf_world_allocated [OF wf s])
  from ar i have "call_args ?c \<in> set argss"
    by (metis length_map nth_map nth_mem)
  with app have sid: "SessionID (call_args ?c) = sid" by (simp add: is_append_def)
  show ?thesis
  proof (cases "call_at ?c")
    case AtRead
    obtain sessionCopy m1 where cl: "clone s (mem w) = (sessionCopy, m1)" by fastforce
    note ce = clone_effect [OF cl]
    from st AtRead s cl sid have e: "c' = ?c\<lparr>call_at := AtUpdate sessionCopy (Version s)\<rparr>"
      "w' = w\<lparr>mem := m1\<rparr>"
      by (simp_all add: caller_step_def CompareAndSwap_read_def)
    show ?thesis
    proof (rule inv_local_step [OF inv i])
      show "call_args c' = call_args ?c" by (simp add: e)
      show "\<not> is_returned c'" by (simp add: e is_returned_def)
      show "\<not> is_returned ?c" by (simp add: AtRead is_returned_def)
      show "store1 w' = store1 w" by (simp add: e)
      show "mem_extends (mem w) (mem w')" using ce(3) by (simp add: e)
      fix s' assume "map_of (store1 w) sid = Some s'"
      with s have "s' = s" by simp
      moreover have "thoughts_of m1 s = thoughts_of (mem w) s"
        using thoughts_of_extends [OF ce(3) al] by simp
      ultimately show "caller_ok (mem w') s' c'"
        using ce(4) ce(5) [OF al] by (simp add: e caller_ok_def)
    qed
  next
    case (AtUpdate sessionCopy oldVersion)
    from appendFunc_effect [of "call_args ?c" now sessionCopy "mem w"]
    obtain updated out m2 t where
      f: "appendFunc (call_args ?c) now sessionCopy (mem w) = (Inr (updated, out), m2)"
      and ext: "mem_extends (mem w) m2"
      and up: "allocated (mem w) sessionCopy \<longrightarrow>
           allocated m2 updated \<and> thoughts_of m2 updated = thoughts_of (mem w) sessionCopy @ [t]"
      and it: "Index t = int (length (Thoughts sessionCopy)) + 1"
      and ct: "Content t = Thought_a (call_args ?c)"
      by blast
    from st AtUpdate f have e: "c' = ?c\<lparr>call_at := AtCommit updated out oldVersion\<rparr>"
      "w' = w\<lparr>mem := m2\<rparr>"
      by (simp_all add: caller_step_def)
    show ?thesis
    proof (rule inv_local_step [OF inv i])
      show "call_args c' = call_args ?c" by (simp add: e)
      show "\<not> is_returned c'" by (simp add: e is_returned_def)
      show "\<not> is_returned ?c" by (simp add: AtUpdate is_returned_def)
      show "store1 w' = store1 w" by (simp add: e)
      show "mem_extends (mem w) (mem w')" using ext by (simp add: e)
      fix s' assume "map_of (store1 w) sid = Some s'" and ok: "caller_ok (mem w) s' ?c"
      with s have s': "s' = s" by simp
      from ok AtUpdate have o: "sint oldVersion \<le> sint (Version s)" "allocated (mem w) sessionCopy"
        "oldVersion = Version s \<longrightarrow> thoughts_of (mem w) sessionCopy = thoughts_of (mem w) s"
        by (simp_all add: caller_ok_def s')
      from up o(2) have u: "allocated m2 updated"
        "thoughts_of m2 updated = thoughts_of (mem w) sessionCopy @ [t]" by simp_all
      have ths: "thoughts_of m2 s = thoughts_of (mem w) s"
        using thoughts_of_extends [OF ext al] by simp
      have "\<exists>t. thoughts_of m2 updated = thoughts_of m2 s @ [t] \<and>
            Index t = int (length (Thoughts s)) + 1 \<and> Content t = Thought_a (call_args ?c)"
        if v: "oldVersion = Version s"
      proof -
        from o(3) v have eq: "thoughts_of (mem w) sessionCopy = thoughts_of (mem w) s" by simp
        from arg_cong [OF eq, of length] have "length (Thoughts sessionCopy) = length (Thoughts s)"
          by (simp add: thoughts_of_def)
        with u(2) eq ths it ct show ?thesis by simp
      qed
      with o(1) u(1) show "caller_ok (mem w') s' c'"
        by (simp add: e caller_ok_def s')
    qed
  next
    case (AtCommit updated out oldVersion)
    show ?thesis
    proof (cases "Version s = oldVersion")
      case False
      with st AtCommit s sid have e: "c' = ?c\<lparr>call_at := AtRead\<rparr>" "w' = w"
        by (simp_all add: caller_step_def CompareAndSwap_commit_def)
      show ?thesis
      proof (rule inv_local_step [OF inv i])
        show "call_args c' = call_args ?c" by (simp add: e)
        show "\<not> is_returned c'" by (simp add: e is_returned_def)
        show "\<not> is_returned ?c" by (simp add: AtCommit is_returned_def)
        show "store1 w' = store1 w" by (simp add: e)
        show "mem_extends (mem w) (mem w')" by (simp add: e mem_extends_refl)
        show "caller_ok (mem w') s' c'" for s' by (simp add: e caller_ok_def)
      qed
    next
      case True
      obtain thoughtID progress statusMsg where out: "out = (thoughtID, progress, statusMsg)"
        by (cases out) auto
      let ?msg = "append_text sid progress (Thought_a (call_args ?c)) statusMsg"
      from st AtCommit s sid True out have e: "c' = ?c\<lparr>call_at := Returned (Inr ?msg)\<rparr>"
        "w' = w\<lparr>store1 := AList.update sid (updated\<lparr>Version := Version s + 1\<rparr>) (store1 w)\<rparr>"
        by (auto simp: caller_step_def CompareAndSwap_commit_def)
      have at: "call_at ?c = AtCommit updated out (Version s)"
        using AtCommit True by simp
      have "call_args c' = call_args ?c" "call_at c' = Returned (Inr ?msg)"
        by (simp_all add: e)
      from inv_commit_step [OF inv i s at this] show ?thesis by (simp add: e)
    qed
  next
    case (Returned r)
    with st have e: "c' = ?c" "w' = w" by (simp_all add: caller_step_def)
    with inv show ?thesis by simp
  qed
qed

lemma sched_step_inv:
  assumes "appends_inv sid v0 ts0 argss cfg" and "\<forall>a \<in> set argss. is_append sid a"
  shows "appends_inv sid v0 ts0 argss (sched_step e cfg)"
proof -
  obtain i now where e: "e = (i, now)" by (cases e)
  obtain cs w where cfg: "cfg = (cs, w)" by (cases cfg)
  show ?thesis
  proof (cases "i < length cs")
    case True
    obtain c' w' where st: "caller_step now (cs ! i) w = (c', w')" by fastforce
    from caller_step_inv [OF assms(1) [unfolded cfg] assms(2) True st] True st
    show ?thesis by (simp add: sched_step_def e cfg)
  next
    case False
    with assms(1) show ?thesis by (simp add: sched_step_def e cfg)
  qed
qed

lemma interleave_inv:
  "appends_inv sid v0 ts0 argss cfg \<Longrightarrow> \<forall>a \<in> set argss. is_append sid a \<Longrightarrow>
     appends_inv sid v0 ts0 argss (interleave sch cfg)"
proof (induction sch arbitrary: cfg)
  case Nil
  then show ?case by simp
next
  case (Cons e sch)
  from Cons.IH [OF sched_step_inv [OF Cons.prems] Cons.prems(2)] show ?case by simp
qed

lemma appends_inv_start:
  assumes "wf_world w" and "map_of (store1 w) sid = Some s" and "contiguous (mem w) s"
    and "sint (Version s) + int (length argss) < 2 ^ 63"
  shows "appends_inv sid (sint (Version s)) (thoughts_of (mem w) s) argss
           (append_callers argss, w)"
proof -
  have f0: "filter is_returned (append_callers argss) = []"
    by (auto simp: append_callers_def is_returned_def filter_empty_conv)
  have oks: "\<forall>c \<in> set (append_callers argss). caller_ok (mem w) s c"
    by (auto simp: append_callers_def caller_ok_def)
  have ar: "map call_args (append_callers argss) = argss"
    by (simp add: append_callers_def comp_def)
  have len: "length (Thoughts s) = length (thoughts_of (mem w) s)"
    by (simp add: thoughts_of_def)
  show ?thesis
    unfolding appends_inv_def prod.case f0
    using assms oks ar len by simp
qed


text \<open>Every step of a caller takes it one step closer to its return.\<close>

lemma caller_step_left:
  assumes inv: "appends_inv sid v0 ts0 argss (cs, w)"
    and app: "\<forall>a \<in> set argss. is_append sid a"
    and i: "i < length cs"
    and st: "caller_step now (cs ! i) w = (c', w')"
  shows "steps_left sid w' c' = steps_left sid w (cs ! i) - 1"
proof -
  let ?c = "cs ! i"
  from inv obtain s where ar: "map call_args cs = argss"
    and s: "map_of (store1 w) sid = Some s"
    by (auto simp: appends_inv_def)
  from ar i have "call_args ?c \<in> set argss"
    by (metis length_map nth_map nth_mem)
  with app have sid: "SessionID (call_args ?c) = sid" by (simp add: is_append_def)
  show ?thesis
  proof (cases "call_at ?c")
    case AtRead
    obtain sessionCopy m1 where cl: "clone s (mem w) = (sessionCopy, m1)" by fastforce
    from st AtRead s cl sid have "c' = ?c\<lparr>call_at := AtUpdate sessionCopy (Version s)\<rparr>"
      "w' = w\<lparr>mem := m1\<rparr>"
      by (simp_all add: caller_step_def CompareAndSwap_read_def)
    with s AtRead show ?thesis by (simp add: steps_left_def)
  next
    case (AtUpdate sessionCopy oldVersion)
    from appendFunc_effect [of "call_args ?c" now sessionCopy "mem w"]
    obtain updated out m2 where
      "appendFunc (call_args ?c) now sessionCopy (mem w) = (Inr (updated, out), m2)"
      by blast
    with st AtUpdate have "c' = ?c\<lparr>call_at := AtCommit updated out oldVersion\<rparr>"
      "w' = w\<lparr>mem := m2\<rparr>"
      by (simp_all add: caller_step_def)
    with s AtUpdate show ?thesis by (simp add: steps_left_def)
  next
    case (AtCommit updated out oldVersion)
    show ?thesis
    proof (cases "Version s = oldVersion")
      case False
      with st AtCommit s sid have "c' = ?c\<lparr>call_at := AtRead\<rparr>" "w' = w"
        by (simp_all add: caller_step_def CompareAndSwap_commit_def)
      with s AtCommit False show ?thesis by (simp add: steps_left_def)
    next
      case True
      with st AtCommit s sid have "\<exists>r. call_at c' = Returned r"
        by (auto simp: caller_step_def CompareAndSwap_commit_def split: prod.splits)
      with s AtCommit True show ?thesis by (auto simp: steps_left_def)
    qed
  next
    case (Returned r)
    with st have "c' = ?c" "w' = w" by (simp_all add: caller_step_def)
    with Returned show ?thesis by (simp add: steps_left_def)
  qed
qed

lemma steps_left_le: "steps_left sid w c \<le> 5"
  by (simp add: steps_left_def split: pc.split)

lemma steps_left_0: "steps_left sid w c = 0 \<longleftrightarrow> is_returned c"
  by (simp add: steps_left_def is_returned_def split: pc.split)

lemma sched_step_length: "length (fst (sched_step e cfg)) = length (fst cfg)"
  by (simp add: sched_step_def split: prod.split)

lemma interleave_length: "length (fst (interleave sch cfg)) = length (fst cfg)"
  by (induction sch arbitrary: cfg) (simp_all add: sched_step_length)

lemma interleave_append: "interleave (sch @ sch') cfg = interleave sch' (interleave sch cfg)"
  by (induction sch arbitrary: cfg) simp_all

lemma caller_step_returned: "is_returned c \<Longrightarrow> caller_step now c w = (c, w)"
  by (simp add: caller_step_def is_returned_def split: pc.splits)

lemma sched_step_returned:
  assumes "j < length (fst cfg)" and "is_returned (fst cfg ! j)"
  shows "is_returned (fst (sched_step e cfg) ! j)"
proof -
  obtain i now where e: "e = (i, now)" by (cases e)
  obtain cs w where cfg: "cfg = (cs, w)" by (cases cfg)
  show ?thesis
  proof (cases "i = j")
    case True
    with assms caller_step_returned [of "cs ! j" now w] show ?thesis
      by (simp add: sched_step_def e cfg)
  next
    case False
    with assms show ?thesis
      by (simp add: sched_step_def e cfg split: prod.split)
  qed
qed

lemma interleave_returned:
  "j < length (fst cfg) \<Longrightarrow> is_returned (fst cfg ! j) \<Longrightarrow>
     is_returned (fst (interleave sch cfg) ! j)"
proof (induction sch arbitrary: cfg)
  case Nil
  then show ?case by simp
next
  case (Cons e sch)
  from Cons.prems have "j < length (fst (sched_step e cfg))"
    "is_returned (fst (sched_step e cfg) ! j)"
    by (simp_all add: sched_step_length sched_step_returned)
  from Cons.IH [OF this] show ?case by simp
qed

lemma solo_steps:
  assumes "appends_inv sid v0 ts0 argss cfg" and "\<forall>a \<in> set argss. is_append sid a"
    and "i < length (fst cfg)"
  shows "steps_left sid (snd (interleave (replicate n (i, now)) cfg))
                        (fst (interleave (replicate n (i, now)) cfg) ! i)
         = steps_left sid (snd cfg) (fst cfg ! i) - n"
  using assms
proof (induction n arbitrary: cfg)
  case 0
  then show ?case by simp
next
  case (Suc n)
  obtain cs w where cfg: "cfg = (cs, w)" by (cases cfg)
  obtain c' w' where st: "caller_step now (cs ! i) w = (c', w')" by fastforce
  from Suc.prems(3) have i: "i < length cs" by (simp add: cfg)
  have step: "sched_step (i, now) (cs, w) = (cs[i := c'], w')"
    using i st by (simp add: sched_step_def)
  have inv': "appends_inv sid v0 ts0 argss (cs[i := c'], w')"
    by (rule caller_step_inv [OF Suc.prems(1) [unfolded cfg] Suc.prems(2) i st])
  have left: "steps_left sid w' c' = steps_left sid w (cs ! i) - 1"
    by (rule caller_step_left [OF Suc.prems(1) [unfolded cfg] Suc.prems(2) i st])
  from Suc.IH [OF inv' Suc.prems(2)] i left show ?case
    by (simp add: step cfg)
qed

lemma solo_returns:
  assumes "appends_inv sid v0 ts0 argss cfg" and "\<forall>a \<in> set argss. is_append sid a"
    and "i < length (fst cfg)"
  shows "is_returned (fst (interleave (replicate 5 (i, now)) cfg) ! i)"
proof -
  from solo_steps [OF assms, of 5 now] steps_left_le [of sid "snd cfg" "fst cfg ! i"]
  have "steps_left sid (snd (interleave (replicate 5 (i, now)) cfg))
          (fst (interleave (replicate 5 (i, now)) cfg) ! i) = 0"
    by simp
  then show ?thesis by (simp only: steps_left_0)
qed

lemma finish_Suc: "finish (Suc n) now = finish n now @ replicate 5 (n, now)"
  by (simp add: finish_def)

lemma finish_returns:
  assumes "appends_inv sid v0 ts0 argss cfg" and "\<forall>a \<in> set argss. is_append sid a"
  shows "n \<le> length (fst cfg) \<Longrightarrow>
     \<forall>j<n. is_returned (fst (interleave (finish n now) cfg) ! j)"
proof (induction n)
  case 0
  then show ?case by simp
next
  case (Suc n)
  let ?cfg1 = "interleave (finish n now) cfg"
  let ?cfg2 = "interleave (replicate 5 (n, now)) ?cfg1"
  have len1: "length (fst ?cfg1) = length (fst cfg)" by (rule interleave_length)
  have inv1: "appends_inv sid v0 ts0 argss ?cfg1"
    by (rule interleave_inv [OF assms])
  from Suc.prems len1 have n: "n < length (fst ?cfg1)" by simp
  have last: "is_returned (fst ?cfg2 ! n)"
    by (rule solo_returns [OF inv1 assms(2) n])
  from Suc have before: "\<forall>j<n. is_returned (fst ?cfg1 ! j)" by simp
  have "is_returned (fst ?cfg2 ! j)" if "j < Suc n" for j
  proof (cases "j = n")
    case True
    with last show ?thesis by simp
  next
    case False
    with that have j: "j < n" by simp
    with before n have "j < length (fst ?cfg1)" "is_returned (fst ?cfg1 ! j)" by simp_all
    then show ?thesis by (rule interleave_returned)
  qed
  then show ?case by (simp add: finish_Suc interleave_append)
qed


text \<open>
  A caller that runs alone makes the three steps of one round of the loop and returns
  what \<open>ContinueThinking\<close> returns.
\<close>

lemma solo_is_ContinueThinking:
  assumes "ReviseStep args = None" and "\<not> CreateBranch args"
    and "ContinueThinking args now w = Some (r, w')"
  shows "interleave (replicate 3 (0, now)) ([\<lparr>call_args = args, call_at = AtRead\<rparr>], w)
           = ([\<lparr>call_args = args, call_at = Returned r\<rparr>], w')"
proof (cases "map_of (store1 w) (SessionID args)")
  case None
  from append_missing [OF assms(1,2) None, of now] assms(3)
  have "r = Inl (SessionNotFound (SessionID args))" "w' = w" by simp_all
  with None show ?thesis
    by (simp add: numeral_3_eq_3 sched_step_def caller_step_def CompareAndSwap_read_def)
next
  case (Some s)
  obtain c m1 where cl: "clone s (mem w) = (c, m1)" by fastforce
  obtain q m2 where f: "appendFunc args now c m1 = (q, m2)" by fastforce
  from appendFunc_effect [of args now c m1] f obtain updated out where
    q: "q = Inr (updated, out)" by auto
  obtain thoughtID progress statusMsg where out: "out = (thoughtID, progress, statusMsg)"
    by (cases out) auto
  from CompareAndSwap_commits [where f = "appendFunc args now", OF Some cl f [unfolded q]]
    assms out
  have "r = Inr (append_text (SessionID args) progress (Thought_a args) statusMsg)"
    "w' = \<lparr>store1 = AList.update (SessionID args) (updated\<lparr>Version := Version s + 1\<rparr>) (store1 w),
           mem = m2\<rparr>"
    by (simp_all add: ContinueThinking_def)
  with Some cl f q out show ?thesis
    by (simp add: numeral_3_eq_3 sched_step_def caller_step_def CompareAndSwap_read_def
        CompareAndSwap_commit_def)
qed

text \<open>
  C2. N append calls run concurrently against one session that is present, under any
  schedule, the version before plus N being below \<open>2^63\<close> (the version does not wrap).
  Once all of them have returned, all have returned without error, the version
  of the session is the version before plus N, and its thoughts are the L thoughts it
  had followed by N new ones, with the indices 1 .. L + N in order (for a session without
  thoughts: exactly N thoughts with the indices 1 .. N) and with the contents of the N
  calls, each once: no update is lost. And they do all return: whatever has happened so
  far, letting each caller in turn make five steps brings every call to its return.
\<close>

theorem concurrent_appends:
  assumes "wf_world w0" and "map_of (store1 w0) sid = Some s0"
    and "contiguous (mem w0) s0"
    and "\<forall>a \<in> set argss. is_append sid a"
    and "sint (Version s0) + int (length argss) < 2 ^ 63"
  shows "(list_all is_returned (fst (interleave sch (append_callers argss, w0))) \<longrightarrow>
            list_all succeeded (fst (interleave sch (append_callers argss, w0)))
          \<and> (\<exists>s. map_of (store1 (snd (interleave sch (append_callers argss, w0)))) sid = Some s
                \<and> sint (Version s) = sint (Version s0) + int (length argss)
                \<and> length (Thoughts s) = length (Thoughts s0) + length argss
                \<and> take (length (Thoughts s0))
                     (thoughts_of (mem (snd (interleave sch (append_callers argss, w0)))) s)
                   = thoughts_of (mem w0) s0
                \<and> map Index (thoughts_of (mem (snd (interleave sch (append_callers argss, w0)))) s)
                   = map int [1 ..< Suc (length (Thoughts s0) + length argss)]
                \<and> mset (map Content (drop (length (Thoughts s0))
                     (thoughts_of (mem (snd (interleave sch (append_callers argss, w0)))) s)))
                   = mset (map Thought_a argss)))
       \<and> list_all is_returned
           (fst (interleave (sch @ finish (length argss) now) (append_callers argss, w0)))"
proof
  let ?cfg = "interleave sch (append_callers argss, w0)"
  let ?L = "length (Thoughts s0)"
  have start: "appends_inv sid (sint (Version s0)) (thoughts_of (mem w0) s0) argss
      (append_callers argss, w0)"
    by (rule appends_inv_start [OF assms(1-3,5)])
  have inv: "appends_inv sid (sint (Version s0)) (thoughts_of (mem w0) s0) argss ?cfg"
    by (rule interleave_inv [OF start assms(4)])
  obtain cs w where cfg: "?cfg = (cs, w)" by (cases ?cfg)
  have L: "length (thoughts_of (mem w0) s0) = ?L" by (simp add: thoughts_of_def)
  from inv [unfolded cfg] obtain s where
    ar: "map call_args cs = argss"
    and s: "map_of (store1 w) sid = Some s"
    and v: "sint (Version s) = sint (Version s0) + int (length (filter is_returned cs))"
    and l: "length (Thoughts s) = ?L + length (filter is_returned cs)"
    and t: "take ?L (thoughts_of (mem w) s) = thoughts_of (mem w0) s0"
    and co: "contiguous (mem w) s"
    and ms: "mset (map Content (drop ?L (thoughts_of (mem w) s))) =
               mset (map (\<lambda>c. Thought_a (call_args c)) (filter is_returned cs))"
    and oks: "\<forall>c \<in> set cs. caller_ok (mem w) s c"
    unfolding appends_inv_def prod.case L by blast
  show "list_all is_returned (fst ?cfg) \<longrightarrow>
            list_all succeeded (fst ?cfg)
          \<and> (\<exists>s. map_of (store1 (snd ?cfg)) sid = Some s
                \<and> sint (Version s) = sint (Version s0) + int (length argss)
                \<and> length (Thoughts s) = ?L + length argss
                \<and> take ?L (thoughts_of (mem (snd ?cfg)) s) = thoughts_of (mem w0) s0
                \<and> map Index (thoughts_of (mem (snd ?cfg)) s)
                   = map int [1 ..< Suc (?L + length argss)]
                \<and> mset (map Content (drop ?L (thoughts_of (mem (snd ?cfg)) s)))
                   = mset (map Thought_a argss))"
  proof
    assume "list_all is_returned (fst ?cfg)"
    then have all: "\<forall>c \<in> set cs. is_returned c" by (simp add: cfg list_all_iff)
    then have f: "filter is_returned cs = cs" by simp
    have n: "length cs = length argss" using ar by (metis length_map)
    have "succeeded c" if "c \<in> set cs" for c
    proof -
      from that all oks have "is_returned c" "caller_ok (mem w) s c" by blast+
      then show ?thesis
        by (auto simp: is_returned_def caller_ok_def succeeded_def split: pc.splits)
    qed
    then have 1: "list_all succeeded cs" by (simp add: list_all_iff)
    have 2: "sint (Version s) = sint (Version s0) + int (length argss)"
      using v by (simp only: f n)
    have 3: "length (Thoughts s) = ?L + length argss" using l by (simp only: f n)
    have 4: "map Index (thoughts_of (mem w) s) = map int [1 ..< Suc (?L + length argss)]"
      using co by (simp only: contiguous_def 3)
    have "map (\<lambda>c. Thought_a (call_args c)) cs = map Thought_a (map call_args cs)"
      by simp
    then have 5: "mset (map Content (drop ?L (thoughts_of (mem w) s))) = mset (map Thought_a argss)"
      using ms by (simp only: f ar)
    from 1 2 3 4 5 s t show "list_all succeeded (fst ?cfg)
          \<and> (\<exists>s. map_of (store1 (snd ?cfg)) sid = Some s
                \<and> sint (Version s) = sint (Version s0) + int (length argss)
                \<and> length (Thoughts s) = ?L + length argss
                \<and> take ?L (thoughts_of (mem (snd ?cfg)) s) = thoughts_of (mem w0) s0
                \<and> map Index (thoughts_of (mem (snd ?cfg)) s)
                   = map int [1 ..< Suc (?L + length argss)]
                \<and> mset (map Content (drop ?L (thoughts_of (mem (snd ?cfg)) s)))
                   = mset (map Thought_a argss))"
      unfolding cfg fst_conv snd_conv by blast
  qed
  let ?end = "interleave (finish (length argss) now) ?cfg"
  have len: "length (fst ?cfg) = length argss"
    by (simp add: interleave_length append_callers_def)
  then have "length argss \<le> length (fst ?cfg)" by simp
  from finish_returns [OF inv assms(4) this, of now]
  have "\<forall>j<length argss. is_returned (fst ?end ! j)" .
  moreover have "length (fst ?end) = length argss"
    using len by (simp add: interleave_length)
  ultimately have "list_all is_returned (fst ?end)"
    by (simp add: list_all_length)
  then show "list_all is_returned
      (fst (interleave (sch @ finish (length argss) now) (append_callers argss, w0)))"
    by (simp only: interleave_append)
qed


theorem concurrent_appends_witness:
  "wf_world ex_started \<and> map_of (store1 ex_started) ''s'' = Some ex_fresh
   \<and> contiguous (mem ex_started) ex_fresh
   \<and> is_append ''s'' (ex_append_args ''a'' None) \<and> is_append ''s'' (ex_append_args ''b'' None)
   \<and> sint (Version ex_fresh) + 2 < 2 ^ 63
   \<and> map is_returned (fst (interleave (take 6 ex_schedule)
        (append_callers [ex_append_args ''a'' None, ex_append_args ''b'' None], ex_started)))
      = [True, False]
   \<and> list_all is_returned (fst (interleave ex_schedule
        (append_callers [ex_append_args ''a'' None, ex_append_args ''b'' None], ex_started)))
   \<and> (\<exists>s. map_of (store1 (snd (interleave ex_schedule
              (append_callers [ex_append_args ''a'' None, ex_append_args ''b'' None], ex_started))))
            ''s'' = Some s
        \<and> sint (Version s) = 2 \<and> length (Thoughts s) = 2
        \<and> map Index (thoughts_of (mem (snd (interleave ex_schedule
              (append_callers [ex_append_args ''a'' None, ex_append_args ''b'' None], ex_started)))) s)
           = [1, 2]
        \<and> mset (map Content (thoughts_of (mem (snd (interleave ex_schedule
              (append_callers [ex_append_args ''a'' None, ex_append_args ''b'' None], ex_started)))) s))
           = {#''a'', ''b''#})
   \<and> list_all is_returned (fst (interleave (take 2 ex_schedule @ finish 2 ex_now)
        (append_callers [ex_append_args ''a'' None, ex_append_args ''b'' None], ex_started)))"
proof -
  let ?argss = "[ex_append_args ''a'' None, ex_append_args ''b'' None]"
  let ?start = "(append_callers ?argss, ex_started)"
  have 1: "wf_world ex_started"
    by (simp add: wf_world_def ex_started_def allocated_def ex_fresh_def)
  have 2: "map_of (store1 ex_started) ''s'' = Some ex_fresh"
    by (simp add: ex_started_def)
  have 3: "contiguous (mem ex_started) ex_fresh"
    by (simp add: contiguous_def thoughts_of_def ex_fresh_def)
  have 4: "\<forall>a \<in> set ?argss. is_append ''s'' a"
    by (simp add: is_append_def ex_append_args_def)
  have 5: "list_all is_returned (fst (interleave ex_schedule ?start))"
    by code_simp
  have 6: "map is_returned (fst (interleave (take 6 ex_schedule) ?start)) = [True, False]"
    by code_simp
  have 7: "map int [1 ..< Suc (length (Thoughts ex_fresh) + length ?argss)] = [1, 2]"
    by code_simp
  have 8: "sint (Version ex_fresh) + int (length ?argss) < 2 ^ 63"
    by (simp add: ex_fresh_def)
  then have 9: "sint (Version ex_fresh) + 2 < 2 ^ 63" by simp
  let ?w = "snd (interleave ex_schedule ?start)"
  from concurrent_appends [OF 1 2 3 4 8, of ex_schedule ex_now] 5 obtain s where
    a: "map_of (store1 ?w) ''s'' = Some s"
      "sint (Version s) = sint (Version ex_fresh) + int (length ?argss)"
      "length (Thoughts s) = length (Thoughts ex_fresh) + length ?argss"
      "map Index (thoughts_of (mem ?w) s) =
         map int [1 ..< Suc (length (Thoughts ex_fresh) + length ?argss)]"
      "mset (map Content (drop (length (Thoughts ex_fresh)) (thoughts_of (mem ?w) s))) =
         mset (map Thought_a ?argss)"
    by blast
  from a(2) have v: "sint (Version s) = 2" by (simp add: ex_fresh_def)
  from a(3) have l: "length (Thoughts s) = 2" by (simp add: ex_fresh_def)
  from a(4) have i: "map Index (thoughts_of (mem ?w) s) = [1, 2]" by (simp only: 7)
  from a(5) have c: "mset (map Content (thoughts_of (mem ?w) s)) = {#''a'', ''b''#}"
    by (simp add: ex_fresh_def ex_append_args_def)
  have "\<exists>s. map_of (store1 ?w) ''s'' = Some s
        \<and> sint (Version s) = 2 \<and> length (Thoughts s) = 2
        \<and> map Index (thoughts_of (mem ?w) s) = [1, 2]
        \<and> mset (map Content (thoughts_of (mem ?w) s)) = {#''a'', ''b''#}"
    by (rule exI [of _ s]) (intro conjI a(1) v l i c)
  moreover from concurrent_appends [OF 1 2 3 4 8, of "take 2 ex_schedule" ex_now, THEN conjunct2]
  have "list_all is_returned (fst (interleave (take 2 ex_schedule @ finish 2 ex_now) ?start))"
    by (simp add: numeral_2_eq_2)
  ultimately show ?thesis
    using 1 2 3 4 5 6 9 by (simp only: list.set ball_simps simp_thms)
qed


subsection \<open>The other sessions of the store\<close>

text \<open>
  An append or a revision of one session writes no int cell and leaves every other
  session of the store, and its thoughts, as they were.
\<close>

lemma ContinueThinking_frame:
  assumes wf: "wf_world w" and nb: "\<not> (ReviseStep args = None \<and> CreateBranch args)"
  shows "\<exists>r w'. ContinueThinking args now w = Some (r, w') \<and> wf_world w'
           \<and> int_at (mem w') = int_at (mem w)
           \<and> (\<forall>sid' t. sid' \<noteq> SessionID args \<and> map_of (store1 w) sid' = Some t \<longrightarrow>
                 map_of (store1 w') sid' = Some t
                 \<and> thoughts_of (mem w') t = thoughts_of (mem w) t)"
proof -
  have upd: "\<exists>r w'. ContinueThinking args now w = Some (r, w') \<and> wf_world w'
           \<and> int_at (mem w') = int_at (mem w)
           \<and> (\<forall>sid' t. sid' \<noteq> SessionID args \<and> map_of (store1 w) sid' = Some t \<longrightarrow>
                 map_of (store1 w') sid' = Some t
                 \<and> thoughts_of (mem w') t = thoughts_of (mem w) t)"
    if ct: "ContinueThinking args now w =
              Some (r, \<lparr>store1 = AList.update (SessionID args) s' (store1 w), mem = m'\<rparr>)"
      and ext: "mem_extends (mem w) m'" and al: "allocated m' s'"
    for r s' m'
  proof -
    have "wf_world \<lparr>store1 = AList.update (SessionID args) s' (store1 w), mem = m'\<rparr>"
      by (rule wf_world_update [OF wf ext al])
    moreover from ext have "int_at m' = int_at (mem w)" by (simp add: mem_extends_def)
    ultimately show ?thesis
      using ct stored_thoughts_extends [OF wf ext] by (auto simp: update_conv')
  qed
  have same: "\<exists>r w'. ContinueThinking args now w = Some (r, w') \<and> wf_world w'
           \<and> int_at (mem w') = int_at (mem w)
           \<and> (\<forall>sid' t. sid' \<noteq> SessionID args \<and> map_of (store1 w) sid' = Some t \<longrightarrow>
                 map_of (store1 w') sid' = Some t
                 \<and> thoughts_of (mem w') t = thoughts_of (mem w) t)"
    if ct: "ContinueThinking args now w = Some (r, w\<lparr>mem := m'\<rparr>)"
      and ext: "mem_extends (mem w) m'"
    for r m'
  proof -
    have "wf_world (w\<lparr>mem := m'\<rparr>)"
      by (rule wf_world_extends [OF wf]) (simp_all add: ext)
    moreover from ext have "int_at m' = int_at (mem w)" by (simp add: mem_extends_def)
    ultimately show ?thesis
      using ct stored_thoughts_extends [OF wf ext] by auto
  qed
  show ?thesis
  proof (cases "map_of (store1 w) (SessionID args)")
    case None
    have "ContinueThinking args now w = Some (Inl (SessionNotFound (SessionID args)), w\<lparr>mem := mem w\<rparr>)"
    proof (cases "ReviseStep args")
      case (Some k)
      from revise_missing [OF Some None] show ?thesis by simp
    next
      case no: None
      with nb have "\<not> CreateBranch args" by simp
      from append_missing [OF no this None] show ?thesis by simp
    qed
    from same [OF this mem_extends_refl] show ?thesis .
  next
    case (Some s)
    let ?b = "brk (mem w)" and ?L = "length (Thoughts s)"
    show ?thesis
    proof (cases "ReviseStep args")
      case rs: (Some k)
      show ?thesis
      proof (cases "k < 1 \<or> int ?L < k")
        case True
        from revise_fails [OF rs Some True, of now] same show ?thesis by blast
      next
        case False
        then have k: "1 \<le> k" "k \<le> int ?L" by simp_all
        let ?s' = "s\<lparr>Thoughts := [?b ..< ?b + ?L], LastActivity := now 0,
                     Version := Version s + 1\<rparr>"
        from revise_commits [OF rs Some k, of now] obtain msg m' where
          ct: "ContinueThinking args now w =
             Some (Inr msg, \<lparr>store1 = AList.update (SessionID args) ?s' (store1 w), mem = m'\<rparr>)"
          and ext: "mem_extends (mem w) m'" and brk: "brk m' = ?b + ?L"
          by blast
        have "allocated m' ?s'" using brk by (simp add: allocated_def list_all_iff)
        from upd [OF ct ext this] show ?thesis .
      qed
    next
      case no: None
      with nb have nc: "\<not> CreateBranch args" by simp
      let ?s' = "s\<lparr>Thoughts := [?b ..< ?b + ?L] @ [?b + ?L],
                   CurrentThought := int ?L + 1,
                   EstimatedTotal := (if EstimatedTotal_a args > 0 then EstimatedTotal_a args
                                      else EstimatedTotal s),
                   Status := (if NextNeeded args = Some False then ''completed'' else Status s),
                   LastActivity := now 1, Version := Version s + 1\<rparr>"
      from append_commits [OF no nc Some, of now] obtain msg m' where
        ct: "ContinueThinking args now w =
           Some (Inr msg, \<lparr>store1 = AList.update (SessionID args) ?s' (store1 w), mem = m'\<rparr>)"
        and ext: "mem_extends (mem w) m'" and brk: "brk m' = ?b + ?L + 1"
        by blast
      have "allocated m' ?s'" using brk by (simp add: allocated_def list_all_iff)
      from upd [OF ct ext this] show ?thesis .
    qed
  qed
qed


subsection \<open>Branching\<close>

text \<open>
  C7. A branch call (createBranch true, no reviseStep) on a parent that is present
  succeeds. The parent then has the id parentId + "_branch_" + (old branch count + 1)
  appended to its branches, a new lastActivity, the 64-bit sum of its version and 1 as
  version (its version plus 1 while that is below the greatest int \<open>2^63 - 1\<close>), and
  the thoughts it had.
  Under that id the store holds a new session: the parent's problem followed by
  " (Alternative branch)", thoughts equal one by one to the parent's at the fork,
  currentThought their number, the parent's estimatedTotal, status "active", no
  branches, version 0; the values behind the ParentIndex pointers are equal too. The
  child's thoughts are independent of the parent's: its thought objects are all
  allocated by this call and none of them is an object of the parent, before or after;
  a later append or revision of the parent leaves the child, its thoughts and the
  values behind their ParentIndex pointers as they are, and a later append or revision
  of the child leaves the parent, its thoughts and those values as they are.
\<close>

theorem branch_session:
  assumes "ReviseStep args = None" and "CreateBranch args"
    and "map_of (store1 w) (SessionID args) = Some s"
    and "wf_world w"
  shows "\<exists>text w' parent child branchID.
           ContinueThinking args now w = Some (Inr text, w')
         \<and> branchID = SessionID args @ ''_branch_'' @ fmt_d (int (length (Branches s)) + 1)
         \<and> map_of (store1 w') (SessionID args) = Some parent
         \<and> parent\<lparr>Thoughts := Thoughts s\<rparr> =
             s\<lparr>Branches := Branches s @ [branchID], LastActivity := now 0,
               Version := Version s + 1\<rparr>
         \<and> (sint (Version s) < 2 ^ 63 - 1 \<longrightarrow>
               sint (Version parent) = sint (Version s) + 1)
         \<and> thoughts_of (mem w') parent = thoughts_of (mem w) s
         \<and> map_of (store1 w') branchID = Some child
         \<and> child\<lparr>Thoughts := []\<rparr> =
             \<lparr>ID = branchID, Problem = Problem s @ '' (Alternative branch)'', Thoughts = [],
              CurrentThought = int (length (thoughts_of (mem w) s)),
              EstimatedTotal = EstimatedTotal s, Status = ''active'',
              Created_s = now 1, LastActivity = now 2, Branches = [], Version = 0\<rparr>
         \<and> thoughts_of (mem w') child = thoughts_of (mem w) s
         \<and> parent_values (mem w') child = parent_values (mem w) s
         \<and> distinct (Thoughts child)
         \<and> (\<forall>a \<in> set (Thoughts child).
               brk (mem w) \<le> a \<and> a < brk (mem w') \<and> a \<notin> set (Thoughts parent)
               \<and> a \<notin> set (Thoughts s))
         \<and> (\<forall>args' now'.
               \<not> (ReviseStep args' = None \<and> CreateBranch args')
               \<and> SessionID args' = SessionID args \<longrightarrow>
               (\<exists>r w''. ContinueThinking args' now' w' = Some (r, w'')
                  \<and> map_of (store1 w'') branchID = Some child
                  \<and> thoughts_of (mem w'') child = thoughts_of (mem w') child
                  \<and> parent_values (mem w'') child = parent_values (mem w') child))
         \<and> (\<forall>args' now'.
               \<not> (ReviseStep args' = None \<and> CreateBranch args')
               \<and> SessionID args' = branchID \<longrightarrow>
               (\<exists>r w''. ContinueThinking args' now' w' = Some (r, w'')
                  \<and> map_of (store1 w'') (SessionID args) = Some parent
                  \<and> thoughts_of (mem w'') parent = thoughts_of (mem w') parent
                  \<and> parent_values (mem w'') parent = parent_values (mem w') parent))"
proof -
  let ?b = "brk (mem w)" and ?L = "length (Thoughts s)"
  let ?bid = "SessionID args @ ''_branch_'' @ fmt_d (int (length (Branches s)) + 1)"
  let ?child = "\<lparr>ID = ?bid, Problem = Problem s @ '' (Alternative branch)'',
                  Thoughts = [?b + ?L ..< ?b + ?L + ?L], CurrentThought = int ?L,
                  EstimatedTotal = EstimatedTotal s, Status = ''active'',
                  Created_s = now 1, LastActivity = now 2, Branches = [], Version = 0\<rparr>"
  let ?parent = "s\<lparr>Thoughts := [?b ..< ?b + ?L], LastActivity := now 0,
                   Branches := Branches s @ [?bid], Version := Version s + 1\<rparr>"
  from branch_commits [OF assms(1-3), of now]
  obtain msg m' where
    ct: "ContinueThinking args now w =
       Some (Inr msg, \<lparr>store1 = AList.update ?bid ?child
                          (AList.update (SessionID args) ?parent (store1 w)), mem = m'\<rparr>)"
    and ext: "mem_extends (mem w) m'"
    and brk: "brk m' = ?b + ?L + ?L"
    and vals: "allocated (mem w) s \<longrightarrow>
       map (thought_at m') [?b ..< ?b + ?L] = thoughts_of (mem w) s \<and>
       map (thought_at m') [?b + ?L ..< ?b + ?L + ?L] = thoughts_of (mem w) s"
    by blast
  have al: "allocated (mem w) s" by (rule wf_world_allocated [OF assms(4,3)])
  have neq: "?bid \<noteq> SessionID args" by simp
  have p: "thoughts_of m' ?parent = thoughts_of (mem w) s"
    and c: "thoughts_of m' ?child = thoughts_of (mem w) s"
    using al vals by (simp_all add: thoughts_of_def)
  have old: "\<forall>a \<in> set (Thoughts s). a < ?b"
    using al by (simp add: allocated_def list_all_iff)
  have fresh: "\<forall>a \<in> set (Thoughts ?child).
      ?b \<le> a \<and> a < brk m' \<and> a \<notin> set (Thoughts ?parent) \<and> a \<notin> set (Thoughts s)"
    using old brk by auto
  have len: "int (length (thoughts_of (mem w) s)) = int ?L"
    by (simp add: thoughts_of_def)
  let ?w1 = "\<lparr>store1 = AList.update (SessionID args) ?parent (store1 w), mem = m'\<rparr>"
  let ?w' = "\<lparr>store1 = AList.update ?bid ?child (store1 ?w1), mem = m'\<rparr>"
  have ap: "allocated m' ?parent" and ac: "allocated m' ?child"
    using brk by (simp_all add: allocated_def list_all_iff)
  have "wf_world ?w1" by (rule wf_world_update [OF assms(4) ext ap])
  from wf_world_update [OF this _ ac, of ?bid] have wf': "wf_world ?w'"
    by (simp add: mem_extends_refl)
  have mp: "map_of (store1 ?w') (SessionID args) = Some ?parent"
    and mc: "map_of (store1 ?w') ?bid = Some ?child"
    using neq by (simp_all add: update_conv' del: append_self_conv)
  have after_parent: "\<exists>r w''. ContinueThinking args' now' ?w' = Some (r, w'')
      \<and> map_of (store1 w'') ?bid = Some ?child
      \<and> thoughts_of (mem w'') ?child = thoughts_of (mem ?w') ?child
      \<and> parent_values (mem w'') ?child = parent_values (mem ?w') ?child"
    if nb: "\<not> (ReviseStep args' = None \<and> CreateBranch args')"
      and sid: "SessionID args' = SessionID args" for args' now'
  proof -
    from ContinueThinking_frame [OF wf' nb, of now'] obtain r w'' where
      a: "ContinueThinking args' now' ?w' = Some (r, w'')"
      and ia: "int_at (mem w'') = int_at (mem ?w')"
      and fr: "\<forall>sid' t. sid' \<noteq> SessionID args' \<and> map_of (store1 ?w') sid' = Some t \<longrightarrow>
                 map_of (store1 w'') sid' = Some t
                 \<and> thoughts_of (mem w'') t = thoughts_of (mem ?w') t"
      by blast
    from neq sid have "?bid \<noteq> SessionID args'" by (simp only:) simp
    with fr mc have b: "map_of (store1 w'') ?bid = Some ?child"
      and t: "thoughts_of (mem w'') ?child = thoughts_of (mem ?w') ?child"
      by blast+
    have "parent_values (mem w'') ?child = parent_values (mem ?w') ?child"
      unfolding parent_values_def t ia ..
    with a b t show ?thesis by blast
  qed
  have after_child: "\<exists>r w''. ContinueThinking args' now' ?w' = Some (r, w'')
      \<and> map_of (store1 w'') (SessionID args) = Some ?parent
      \<and> thoughts_of (mem w'') ?parent = thoughts_of (mem ?w') ?parent
      \<and> parent_values (mem w'') ?parent = parent_values (mem ?w') ?parent"
    if nb: "\<not> (ReviseStep args' = None \<and> CreateBranch args')"
      and sid: "SessionID args' = ?bid" for args' now'
  proof -
    from ContinueThinking_frame [OF wf' nb, of now'] obtain r w'' where
      a: "ContinueThinking args' now' ?w' = Some (r, w'')"
      and ia: "int_at (mem w'') = int_at (mem ?w')"
      and fr: "\<forall>sid' t. sid' \<noteq> SessionID args' \<and> map_of (store1 ?w') sid' = Some t \<longrightarrow>
                 map_of (store1 w'') sid' = Some t
                 \<and> thoughts_of (mem w'') t = thoughts_of (mem ?w') t"
      by blast
    from neq sid have "SessionID args \<noteq> SessionID args'" by (simp only:) simp
    with fr mp have b: "map_of (store1 w'') (SessionID args) = Some ?parent"
      and t: "thoughts_of (mem w'') ?parent = thoughts_of (mem ?w') ?parent"
      by blast+
    have "parent_values (mem w'') ?parent = parent_values (mem ?w') ?parent"
      unfolding parent_values_def t ia ..
    with a b t show ?thesis by blast
  qed
  have ct': "ContinueThinking args now w = Some (Inr msg, ?w')"
    by (simp add: ct)
  have f4: "?parent\<lparr>Thoughts := Thoughts s\<rparr> =
      s\<lparr>Branches := Branches s @ [?bid], LastActivity := now 0, Version := Version s + 1\<rparr>"
    by simp
  have f4': "sint (Version s) < 2 ^ 63 - 1 \<longrightarrow>
      sint (Version ?parent) = sint (Version s) + 1"
    by (simp add: sint_succ)
  have f5: "thoughts_of (mem ?w') ?parent = thoughts_of (mem w) s"
    using p by simp
  have f7: "?child\<lparr>Thoughts := []\<rparr> =
      \<lparr>ID = ?bid, Problem = Problem s @ '' (Alternative branch)'', Thoughts = [],
       CurrentThought = int (length (thoughts_of (mem w) s)),
       EstimatedTotal = EstimatedTotal s, Status = ''active'',
       Created_s = now 1, LastActivity = now 2, Branches = [], Version = 0\<rparr>"
    using len by simp
  have f8: "thoughts_of (mem ?w') ?child = thoughts_of (mem w) s"
    using c by simp
  have f8': "parent_values (mem ?w') ?child = parent_values (mem w) s"
    using ext unfolding parent_values_def f8 by (simp add: mem_extends_def)
  have f9: "distinct (Thoughts ?child)" by simp
  have f10: "\<forall>a \<in> set (Thoughts ?child).
      brk (mem w) \<le> a \<and> a < brk (mem ?w') \<and> a \<notin> set (Thoughts ?parent) \<and> a \<notin> set (Thoughts s)"
    using fresh by simp
  have f11: "\<forall>args' now'.
       \<not> (ReviseStep args' = None \<and> CreateBranch args') \<and> SessionID args' = SessionID args \<longrightarrow>
       (\<exists>r w''. ContinueThinking args' now' ?w' = Some (r, w'')
          \<and> map_of (store1 w'') ?bid = Some ?child
          \<and> thoughts_of (mem w'') ?child = thoughts_of (mem ?w') ?child
          \<and> parent_values (mem w'') ?child = parent_values (mem ?w') ?child)"
    using after_parent by blast
  have f12: "\<forall>args' now'.
       \<not> (ReviseStep args' = None \<and> CreateBranch args') \<and> SessionID args' = ?bid \<longrightarrow>
       (\<exists>r w''. ContinueThinking args' now' ?w' = Some (r, w'')
          \<and> map_of (store1 w'') (SessionID args) = Some ?parent
          \<and> thoughts_of (mem w'') ?parent = thoughts_of (mem ?w') ?parent
          \<and> parent_values (mem w'') ?parent = parent_values (mem ?w') ?parent)"
    using after_child by blast
  show ?thesis
    by (rule exI [of _ msg], rule exI [of _ ?w'], rule exI [of _ ?parent],
        rule exI [of _ ?child], rule exI [of _ ?bid])
       (intro conjI ct' refl mp f4 f4' f5 mc f7 f8 f8' f9 f10 f11 f12)
qed

theorem branch_session_witness:
  "CreateBranch \<lparr>SessionID = ''s'', Thought_a = [], NextNeeded = None, ReviseStep = None,
                 CreateBranch = True, EstimatedTotal_a = 0\<rparr>
   \<and> map_of (store1 ex_world) ''s'' = Some ex_session \<and> wf_world ex_world
   \<and> sint (Version ex_session) < 2 ^ 63 - 1
   \<and> (\<exists>text w' parent child.
         ContinueThinking \<lparr>SessionID = ''s'', Thought_a = [], NextNeeded = None,
                           ReviseStep = None, CreateBranch = True, EstimatedTotal_a = 0\<rparr>
            ex_now ex_world = Some (Inr text, w')
       \<and> map_of (store1 w') ''s'' = Some parent
       \<and> Branches parent = [''s_branch_1''] \<and> sint (Version parent) = 3
       \<and> LastActivity parent = 100
       \<and> thoughts_of (mem w') parent = thoughts_of (mem ex_world) ex_session
       \<and> map_of (store1 w') ''s_branch_1'' = Some child
       \<and> ID child = ''s_branch_1'' \<and> Problem child = ''P (Alternative branch)''
       \<and> CurrentThought child = 2 \<and> EstimatedTotal child = 3 \<and> Status child = ''active''
       \<and> Branches child = [] \<and> Version child = 0
       \<and> thoughts_of (mem w') child =
           [\<lparr>Index = 1, Content = ''step1'', Created = 11, Revised = False, ParentIndex = Some 0\<rparr>,
            \<lparr>Index = 2, Content = ''step2'', Created = 12, Revised = False, ParentIndex = None\<rparr>]
       \<and> parent_values (mem w') child = [Some 1, None]
       \<and> set (Thoughts child) \<inter> set (Thoughts parent) = {}
       \<and> (\<exists>r w''. ContinueThinking (ex_append_args ''x'' None) ex_now w' = Some (r, w'')
              \<and> map_of (store1 w'') ''s_branch_1'' = Some child
              \<and> thoughts_of (mem w'') child = thoughts_of (mem w') child
          \<and> parent_values (mem w'') child = parent_values (mem w') child))"
proof -
  let ?args = "\<lparr>SessionID = ''s'', Thought_a = [], NextNeeded = None, ReviseStep = None,
                 CreateBranch = True, EstimatedTotal_a = 0\<rparr>"
  have 1: "ReviseStep ?args = None" and 2: "CreateBranch ?args" by simp_all
  have 3: "map_of (store1 ex_world) (SessionID ?args) = Some ex_session"
    by (simp add: ex_world_def)
  have bid: "SessionID ?args @ ''_branch_'' @ fmt_d (int (length (Branches ex_session)) + 1)
      = ''s_branch_1''"
    by (simp add: ex_session_def fmt_d_def digits.simps)
  from branch_session [OF 1 2 3 ex_world_wf, of ex_now]
  obtain msg w' parent child branchID where
    a: "ContinueThinking ?args ex_now ex_world = Some (Inr msg, w')"
      "branchID = SessionID ?args @ ''_branch_'' @ fmt_d (int (length (Branches ex_session)) + 1)"
      "map_of (store1 w') (SessionID ?args) = Some parent"
      "parent\<lparr>Thoughts := Thoughts ex_session\<rparr> =
         ex_session\<lparr>Branches := Branches ex_session @ [branchID],
                    LastActivity := ex_now 0, Version := Version ex_session + 1\<rparr>"
      "thoughts_of (mem w') parent = thoughts_of (mem ex_world) ex_session"
      "map_of (store1 w') branchID = Some child"
      "child\<lparr>Thoughts := []\<rparr> =
         \<lparr>ID = branchID, Problem = Problem ex_session @ '' (Alternative branch)'',
          Thoughts = [], CurrentThought = int (length (thoughts_of (mem ex_world) ex_session)),
          EstimatedTotal = EstimatedTotal ex_session, Status = ''active'',
          Created_s = ex_now 1, LastActivity = ex_now 2, Branches = [], Version = 0\<rparr>"
      "thoughts_of (mem w') child = thoughts_of (mem ex_world) ex_session"
      "\<forall>a \<in> set (Thoughts child).
          brk (mem ex_world) \<le> a \<and> a < brk (mem w') \<and> a \<notin> set (Thoughts parent)
          \<and> a \<notin> set (Thoughts ex_session)"
    and pv: "parent_values (mem w') child = parent_values (mem ex_world) ex_session"
    and sv: "sint (Version ex_session) < 2 ^ 63 - 1 \<longrightarrow>
               sint (Version parent) = sint (Version ex_session) + 1"
    and ind: "\<forall>args' now'.
       \<not> (ReviseStep args' = None \<and> CreateBranch args') \<and> SessionID args' = SessionID ?args \<longrightarrow>
       (\<exists>r w''. ContinueThinking args' now' w' = Some (r, w'')
          \<and> map_of (store1 w'') branchID = Some child
          \<and> thoughts_of (mem w'') child = thoughts_of (mem w') child
          \<and> parent_values (mem w'') child = parent_values (mem w') child)"
    by blast
  from a(2) bid have b: "branchID = ''s_branch_1''" by simp
  have s: "SessionID ?args = ''s''" by simp
  have 4: "sint (Version ex_session) < 2 ^ 63 - 1" by (simp add: ex_session_def)
  with sv have p2: "sint (Version parent) = 3" by (simp add: ex_session_def)
  from a(4) have p: "Branches parent = [''s_branch_1''] \<and> LastActivity parent = 100"
    unfolding b by (cases parent) (simp add: ex_session_def ex_now_def)
  from a(7) have c: "ID child = ''s_branch_1'' \<and> Problem child = ''P (Alternative branch)''
       \<and> CurrentThought child = 2 \<and> EstimatedTotal child = 3 \<and> Status child = ''active''
       \<and> Branches child = [] \<and> Version child = 0"
    unfolding ex_world_thoughts b by (cases child) (simp add: ex_session_def)
  from a(9) have d: "set (Thoughts child) \<inter> set (Thoughts parent) = {}" by auto
  have "\<not> (ReviseStep (ex_append_args ''x'' None) = None \<and> CreateBranch (ex_append_args ''x'' None))
      \<and> SessionID (ex_append_args ''x'' None) = SessionID ?args"
    by (simp add: ex_append_args_def)
  with ind have e: "\<exists>r w''. ContinueThinking (ex_append_args ''x'' None) ex_now w' = Some (r, w'')
          \<and> map_of (store1 w'') ''s_branch_1'' = Some child
          \<and> thoughts_of (mem w'') child = thoughts_of (mem w') child
          \<and> parent_values (mem w'') child = parent_values (mem w') child"
    unfolding b by blast
  have "parent_values (mem ex_world) ex_session = [Some 1, None]"
    by (simp add: parent_values_def thoughts_of_def ex_world_def ex_session_def ex_mem_def)
  with pv have pv': "parent_values (mem w') child = [Some 1, None]" by simp
  note f = a(1) a(3) [unfolded s] a(5) a(6) [unfolded b] a(8) [unfolded ex_world_thoughts]
  from p c have p1: "Branches parent = [''s_branch_1'']"
    and p3: "LastActivity parent = 100"
    and c1: "ID child = ''s_branch_1''" and c2: "Problem child = ''P (Alternative branch)''"
    and c3: "CurrentThought child = 2" and c4: "EstimatedTotal child = 3"
    and c5: "Status child = ''active''" and c6: "Branches child = []" and c7: "Version child = 0"
    by simp_all
  have "\<exists>text w' parent child.
         ContinueThinking ?args ex_now ex_world = Some (Inr text, w')
       \<and> map_of (store1 w') ''s'' = Some parent
       \<and> Branches parent = [''s_branch_1''] \<and> sint (Version parent) = 3
       \<and> LastActivity parent = 100
       \<and> thoughts_of (mem w') parent = thoughts_of (mem ex_world) ex_session
       \<and> map_of (store1 w') ''s_branch_1'' = Some child
       \<and> ID child = ''s_branch_1'' \<and> Problem child = ''P (Alternative branch)''
       \<and> CurrentThought child = 2 \<and> EstimatedTotal child = 3 \<and> Status child = ''active''
       \<and> Branches child = [] \<and> Version child = 0
       \<and> thoughts_of (mem w') child =
           [\<lparr>Index = 1, Content = ''step1'', Created = 11, Revised = False, ParentIndex = Some 0\<rparr>,
            \<lparr>Index = 2, Content = ''step2'', Created = 12, Revised = False, ParentIndex = None\<rparr>]
       \<and> parent_values (mem w') child = [Some 1, None]
       \<and> set (Thoughts child) \<inter> set (Thoughts parent) = {}
       \<and> (\<exists>r w''. ContinueThinking (ex_append_args ''x'' None) ex_now w' = Some (r, w'')
              \<and> map_of (store1 w'') ''s_branch_1'' = Some child
              \<and> thoughts_of (mem w'') child = thoughts_of (mem w') child
          \<and> parent_values (mem w'') child = parent_values (mem w') child)"
    by (rule exI [of _ msg], rule exI [of _ w'], rule exI [of _ parent], rule exI [of _ child])
       (intro conjI f p1 p2 p3 c1 c2 c3 c4 c5 c6 c7 pv' d e)
  with 2 3 4 ex_world_wf show ?thesis by simp
qed


subsection \<open>Stores without a ParentIndex\<close>

lemma nil_world_iff:
  "nil_world w \<longleftrightarrow>
     distinct (map fst (store1 w)) \<and>
     (\<forall>k s. map_of (store1 w) k = Some s \<longrightarrow> allocated (mem w) s \<and> no_ParentIndex (mem w) s)"
  by (auto simp: nil_world_def wf_world_def list_all_iff dest: map_of_SomeD)

lemma no_ParentIndex_extends:
  "mem_extends m m' \<Longrightarrow> allocated m s \<Longrightarrow> no_ParentIndex m s \<Longrightarrow> no_ParentIndex m' s"
  using thoughts_of_extends [of m m' s] by (simp add: no_ParentIndex_def)

lemma nil_world_extends:
  "nil_world w \<Longrightarrow> mem_extends (mem w) m' \<Longrightarrow> store1 w' = store1 w \<Longrightarrow> mem w' = m' \<Longrightarrow>
     nil_world w'"
  using thoughts_of_extends no_ParentIndex_extends
  by (simp add: nil_world_iff)

lemma nil_world_update:
  assumes "nil_world w" and "mem_extends (mem w) m'"
    and "allocated m' s'" and "no_ParentIndex m' s'"
  shows "nil_world \<lparr>store1 = AList.update k s' (store1 w), mem = m'\<rparr>"
  using assms thoughts_of_extends [OF assms(2)] no_ParentIndex_extends [OF assms(2)]
  by (auto simp: nil_world_iff distinct_update update_conv')

lemma nil_world_wf: "nil_world w \<Longrightarrow> wf_world w"
  by (simp add: nil_world_def)

lemma StartThinking_nil:
  assumes "nil_world w"
  shows "nil_world (snd (StartThinking args src now w))"
proof -
  let ?sid = "if SessionID_a args = [] then randText src else SessionID_a args"
  let ?s = "\<lparr>ID = ?sid, Problem = Problem_a args, Thoughts = [], CurrentThought = 0,
             EstimatedTotal = (if EstimatedSteps args = 0 then 5 else EstimatedSteps args),
             Status = ''active'', Created_s = now 0, LastActivity = now 1,
             Branches = [], Version = 0\<rparr>"
  have "snd (StartThinking args src now w) =
      \<lparr>store1 = AList.update ?sid ?s (store1 w), mem = mem w\<rparr>"
    by (simp add: StartThinking_def SetSession_def Let_def)
  moreover have "nil_world \<lparr>store1 = AList.update ?sid ?s (store1 w), mem = mem w\<rparr>"
    by (rule nil_world_update [OF assms mem_extends_refl])
       (simp_all add: allocated_def no_ParentIndex_def thoughts_of_def)
  ultimately show ?thesis by simp
qed

lemma ContinueThinking_nil:
  assumes g: "nil_world w"
  shows "\<exists>r w'. ContinueThinking args now w = Some (r, w') \<and> nil_world w'"
proof (cases "map_of (store1 w) (SessionID args)")
  case None
  show ?thesis
  proof (cases "ReviseStep args")
    case (Some k)
    from revise_missing [OF Some None] g show ?thesis by auto
  next
    case no: None
    show ?thesis
    proof (cases "CreateBranch args")
      case True
      from branch_missing [OF no True None] g show ?thesis by auto
    next
      case False
      from append_missing [OF no False None] g show ?thesis by auto
    qed
  qed
next
  case (Some s)
  from g Some have al: "allocated (mem w) s" and np: "no_ParentIndex (mem w) s"
    by (simp_all add: nil_world_iff)
  let ?b = "brk (mem w)" and ?L = "length (Thoughts s)"
  have lenT: "length (thoughts_of (mem w) s) = ?L" by (simp add: thoughts_of_def)
  from np have nps: "\<forall>t \<in> set (thoughts_of (mem w) s). ParentIndex t = None"
    by (simp add: no_ParentIndex_def list_all_iff)
  show ?thesis
  proof (cases "ReviseStep args")
    case rs: (Some k)
    show ?thesis
    proof (cases "k < 1 \<or> int ?L < k")
      case True
      from revise_fails [OF rs Some True, of now] obtain m' where
        "ContinueThinking args now w = Some (Inl (InvalidStepNumber k), w\<lparr>mem := m'\<rparr>)"
        "mem_extends (mem w) m'" by blast
      with nil_world_extends [OF g this(2), of "w\<lparr>mem := m'\<rparr>"] show ?thesis by simp
    next
      case False
      then have k: "1 \<le> k" "k \<le> int ?L" by simp_all
      let ?s' = "s\<lparr>Thoughts := [?b ..< ?b + ?L], LastActivity := now 0,
                   Version := Version s + 1\<rparr>"
      from revise_commits [OF rs Some k, of now] al obtain msg m' where
        ct: "ContinueThinking args now w =
           Some (Inr msg, \<lparr>store1 = AList.update (SessionID args) ?s' (store1 w), mem = m'\<rparr>)"
        and ext: "mem_extends (mem w) m'" and brk: "brk m' = ?b + ?L"
        and vals: "map (thought_at m') [?b ..< ?b + ?L] =
          (thoughts_of (mem w) s)
            [nat (k - 1) := (thoughts_of (mem w) s ! nat (k - 1))
                              \<lparr>Content := Thought_a args, Revised := True\<rparr>]"
        by blast
      have a': "allocated m' ?s'"
        using brk by (simp add: allocated_def list_all_iff)
      have "map ParentIndex (map (thought_at m') [?b ..< ?b + ?L])
          = map ParentIndex (thoughts_of (mem w) s)"
        unfolding vals using k lenT
        by (simp add: map_update list_update_same_conv)
      then have "map ParentIndex (thoughts_of m' ?s') = map ParentIndex (thoughts_of (mem w) s)"
        by (simp add: thoughts_of_def)
      with nps have c': "no_ParentIndex m' ?s'"
        unfolding no_ParentIndex_def list_all_iff
        by (metis (no_types, lifting) imageE imageI list.set_map)
      from nil_world_update [OF g ext a' c'] ct show ?thesis by simp
    qed
  next
    case no: None
    show ?thesis
    proof (cases "CreateBranch args")
      case True
      let ?bid = "SessionID args @ ''_branch_'' @ fmt_d (int (length (Branches s)) + 1)"
      let ?child = "\<lparr>ID = ?bid, Problem = Problem s @ '' (Alternative branch)'',
                      Thoughts = [?b + ?L ..< ?b + ?L + ?L], CurrentThought = int ?L,
                      EstimatedTotal = EstimatedTotal s, Status = ''active'',
                      Created_s = now 1, LastActivity = now 2, Branches = [], Version = 0\<rparr>"
      let ?parent = "s\<lparr>Thoughts := [?b ..< ?b + ?L], LastActivity := now 0,
                       Branches := Branches s @ [?bid], Version := Version s + 1\<rparr>"
      from branch_commits [OF no True Some, of now] al obtain msg m' where
        ct: "ContinueThinking args now w =
           Some (Inr msg, \<lparr>store1 = AList.update ?bid ?child
                              (AList.update (SessionID args) ?parent (store1 w)), mem = m'\<rparr>)"
        and ext: "mem_extends (mem w) m'" and brk: "brk m' = ?b + ?L + ?L"
        and vals: "map (thought_at m') [?b ..< ?b + ?L] = thoughts_of (mem w) s"
          "map (thought_at m') [?b + ?L ..< ?b + ?L + ?L] = thoughts_of (mem w) s"
        by blast
      have ap: "allocated m' ?parent" and ac: "allocated m' ?child"
        using brk by (simp_all add: allocated_def list_all_iff)
      from np vals have cp: "no_ParentIndex m' ?parent" and cc: "no_ParentIndex m' ?child"
        by (simp_all add: no_ParentIndex_def thoughts_of_def)
      let ?w1 = "\<lparr>store1 = AList.update (SessionID args) ?parent (store1 w), mem = m'\<rparr>"
      have g1: "nil_world ?w1" by (rule nil_world_update [OF g ext ap cp])
      have "nil_world \<lparr>store1 = AList.update ?bid ?child (store1 ?w1), mem = m'\<rparr>"
        by (rule nil_world_update [OF g1 _ ac cc]) (simp add: mem_extends_refl)
      with ct show ?thesis by simp
    next
      case False
      let ?s' = "s\<lparr>Thoughts := [?b ..< ?b + ?L] @ [?b + ?L],
                   CurrentThought := int ?L + 1,
                   EstimatedTotal := (if EstimatedTotal_a args > 0 then EstimatedTotal_a args
                                      else EstimatedTotal s),
                   Status := (if NextNeeded args = Some False then ''completed'' else Status s),
                   LastActivity := now 1, Version := Version s + 1\<rparr>"
      from append_commits [OF no False Some, of now] al obtain msg m' where
        ct: "ContinueThinking args now w =
           Some (Inr msg, \<lparr>store1 = AList.update (SessionID args) ?s' (store1 w), mem = m'\<rparr>)"
        and ext: "mem_extends (mem w) m'" and brk: "brk m' = ?b + ?L + 1"
        and vals: "map (thought_at m') ([?b ..< ?b + ?L] @ [?b + ?L]) =
          thoughts_of (mem w) s @
            [\<lparr>Index = int ?L + 1, Content = Thought_a args, Created = now 0,
              Revised = False, ParentIndex = None\<rparr>]"
        by blast
      have a': "allocated m' ?s'"
        using brk by (simp add: allocated_def list_all_iff)
      from np have c': "no_ParentIndex m' ?s'"
        unfolding no_ParentIndex_def thoughts_of_def
        using vals by (simp add: thoughts_of_def)
      from nil_world_update [OF g ext a' c'] ct show ?thesis by simp
    qed
  qed
qed

lemma handle_nil:
  assumes "nil_world w"
  shows "\<exists>w'. handle c w = Some w' \<and> nil_world w'"
proof (cases c)
  case (CallStartThinking args src now)
  with StartThinking_nil [OF assms] show ?thesis by simp
next
  case (CallContinueThinking args now)
  with ContinueThinking_nil [OF assms, of args now] show ?thesis by auto
next
  case (CallReviewThinking args)
  obtain r w1 where a: "ReviewThinking args w = (r, w1)" by fastforce
  from ReviewThinking_extends [OF a] nil_world_extends [OF assms, of "mem w1" w1]
  have "nil_world w1" by simp
  with a CallReviewThinking show ?thesis by simp
next
  case (CallThinkingHistory u)
  obtain r w1 where a: "ThinkingHistory u w = (r, w1)" by fastforce
  from ThinkingHistory_extends [OF a] nil_world_extends [OF assms, of "mem w1" w1]
  have "nil_world w1" by simp
  with a CallThinkingHistory show ?thesis by simp
qed

lemma run_nil:
  "nil_world w \<Longrightarrow> \<exists>w'. run cs w = Some w' \<and> nil_world w'"
proof (induction cs arbitrary: w)
  case Nil
  then show ?case by simp
next
  case (Cons c cs)
  from handle_nil [OF Cons.prems, of c] obtain w1 where
    "handle c w = Some w1" "nil_world w1" by blast
  with Cons.IH [OF this(2)] show ?case by simp
qed

lemma nil_world_start: "nil_world world0"
  by (simp add: nil_world_def wf_world_def world0_def NewSessionStore_def)


subsection \<open>What the assignments of a caller can reach\<close>

lemma write_Thought_frame:
  "write_Thought snap i t m = Some m' \<Longrightarrow>
     brk m' = brk m \<and> int_at m' = int_at m
     \<and> (\<forall>a. a \<notin> set (Thoughts snap) \<longrightarrow> thought_at m' a = thought_at m a)"
  by (auto simp: write_Thought_def split: if_splits)

lemma write_ParentIndex_frame:
  "write_ParentIndex snap i v m = Some m' \<Longrightarrow> brk m' = brk m \<and> thought_at m' = thought_at m"
  by (auto simp: write_ParentIndex_def split: if_splits option.splits)

lemma mutate_frame:
  "mutate snap ms m = Some m' \<Longrightarrow>
     brk m' = brk m \<and> (\<forall>a. a \<notin> set (Thoughts snap) \<longrightarrow> thought_at m' a = thought_at m a)"
proof (induction snap ms m rule: mutate.induct)
  case (1 snap m)
  then show ?case by simp
next
  case (2 snap i t ms m)
  from "2.prems" obtain m1 where w: "write_Thought snap i t m = Some m1"
    and r: "mutate snap ms m1 = Some m'"
    by (auto split: option.splits)
  from write_Thought_frame [OF w] "2.IH" [OF w r] show ?case by simp
next
  case (3 snap i v ms m)
  from "3.prems" obtain m1 where w: "write_ParentIndex snap i v m = Some m1"
    and r: "mutate snap ms m1 = Some m'"
    by (auto split: option.splits)
  from write_ParentIndex_frame [OF w] "3.IH" [OF w r] show ?case by simp
qed

text \<open>
  Assignments through a session leave a session that shares no thought object with it
  as it is; where that session has no \<^verbatim>\<open>ParentIndex\<close>, nothing read through it
  changes.
\<close>

lemma mutate_other:
  assumes "mutate snap ms m = Some m'" and "set (Thoughts c) \<inter> set (Thoughts snap) = {}"
  shows "thoughts_of m' c = thoughts_of m c"
    and "allocated m' c = allocated m c"
    and "no_ParentIndex m c \<Longrightarrow> parent_values m' c = parent_values m c"
proof -
  from mutate_frame [OF assms(1)] assms(2)
  have f: "brk m' = brk m" "\<forall>a \<in> set (Thoughts c). thought_at m' a = thought_at m a"
    by auto
  from f(2) show t: "thoughts_of m' c = thoughts_of m c" by (simp add: thoughts_of_def)
  from f(1) show "allocated m' c = allocated m c" by (simp add: allocated_def)
  assume "no_ParentIndex m c"
  then show "parent_values m' c = parent_values m c"
    unfolding parent_values_def t by (simp add: no_ParentIndex_def list_all_iff)
qed

lemma older_disjoint:
  fixes b :: nat
  assumes "\<forall>a \<in> set (Thoughts snap). b \<le> a" and "list_all (\<lambda>a. a < b) (Thoughts c)"
  shows "set (Thoughts c) \<inter> set (Thoughts snap) = {}"
  using assms by (fastforce simp: list_all_iff)

text \<open>
  A snapshot of a session of a store without \<^verbatim>\<open>ParentIndex\<close>, and what the
  assignments of its caller leave alone: every object that existed when the snapshot was
  taken, so the store and every copy returned before.
\<close>

lemma SessionSnapshot_fresh:
  assumes nw: "nil_world w" and s: "map_of (store1 w) sid = Some s"
  shows "\<exists>snap w1.
      SessionSnapshot sid w = (Some snap, w1)
    \<and> store1 w1 = store1 w \<and> mem_extends (mem w) (mem w1)
    \<and> snap\<lparr>Thoughts := Thoughts s\<rparr> = s
    \<and> thoughts_of (mem w1) snap = thoughts_of (mem w) s
    \<and> no_ParentIndex (mem w1) snap
    \<and> (\<forall>a \<in> set (Thoughts snap). brk (mem w) \<le> a \<and> a < brk (mem w1))"
proof -
  obtain r w1 where sn: "SessionSnapshot sid w = (r, w1)" by fastforce
  note se = SessionSnapshot_effect [OF s sn]
  from nw s have al: "allocated (mem w) s" and np: "no_ParentIndex (mem w) s"
    by (simp_all add: nil_world_iff)
  let ?snap = "s\<lparr>Thoughts := [brk (mem w) ..< brk (mem w) + length (Thoughts s)]\<rparr>"
  from se(1) have r: "r = Some ?snap" .
  from se(5) [OF al] r have t: "thoughts_of (mem w1) ?snap = thoughts_of (mem w) s" by simp
  with np have n: "no_ParentIndex (mem w1) ?snap" by (simp add: no_ParentIndex_def)
  have f: "\<forall>a \<in> set (Thoughts ?snap). brk (mem w) \<le> a \<and> a < brk (mem w1)"
    using se(4) by simp
  have e: "?snap\<lparr>Thoughts := Thoughts s\<rparr> = s" by simp
  from sn r have sn': "SessionSnapshot sid w = (Some ?snap, w1)" by simp
  show ?thesis
    by (rule exI [of _ ?snap], rule exI [of _ w1]) (intro conjI sn' se(2) se(3) e t n f)
qed

lemma mutate_snapshot:
  assumes nw: "nil_world w" and ext: "mem_extends (mem w) m1"
    and fresh: "\<forall>a \<in> set (Thoughts snap). brk (mem w) \<le> a"
    and mu: "mutate snap ms m1 = Some m2"
  shows "\<forall>c. allocated (mem w) c \<longrightarrow> thoughts_of m2 c = thoughts_of (mem w) c"
    and "\<forall>sid' s'. map_of (store1 w) sid' = Some s' \<longrightarrow>
           thoughts_of m2 s' = thoughts_of (mem w) s'
           \<and> parent_values m2 s' = parent_values (mem w) s'"
    and "nil_world (w\<lparr>mem := m2\<rparr>)"
proof -
  have old: "thoughts_of m2 c = thoughts_of (mem w) c \<and> allocated m2 c"
    if al: "allocated (mem w) c" for c
  proof -
    from al have "list_all (\<lambda>a. a < brk (mem w)) (Thoughts c)" by (simp add: allocated_def)
    from older_disjoint [OF fresh this]
    have d: "set (Thoughts c) \<inter> set (Thoughts snap) = {}" .
    from mutate_other(1,2) [OF mu d] thoughts_of_extends [OF ext al] show ?thesis by simp
  qed
  then show 1: "\<forall>c. allocated (mem w) c \<longrightarrow> thoughts_of m2 c = thoughts_of (mem w) c"
    by blast
  have st: "thoughts_of m2 s' = thoughts_of (mem w) s' \<and> allocated m2 s'
      \<and> no_ParentIndex m2 s' \<and> parent_values m2 s' = parent_values (mem w) s'"
    if s': "map_of (store1 w) sid' = Some s'" for sid' s'
  proof -
    from nw s' have al: "allocated (mem w) s'" and np: "no_ParentIndex (mem w) s'"
      by (simp_all add: nil_world_iff)
    from old [OF al] have t: "thoughts_of m2 s' = thoughts_of (mem w) s'"
      and a2: "allocated m2 s'" by simp_all
    from np t have n2: "no_ParentIndex m2 s'" by (simp add: no_ParentIndex_def)
    from np have "parent_values m2 s' = parent_values (mem w) s'"
      unfolding parent_values_def t by (simp add: no_ParentIndex_def list_all_iff)
    with t a2 n2 show ?thesis by simp
  qed
  then show "\<forall>sid' s'. map_of (store1 w) sid' = Some s' \<longrightarrow>
           thoughts_of m2 s' = thoughts_of (mem w) s'
           \<and> parent_values m2 s' = parent_values (mem w) s'"
    by blast
  from nw st show "nil_world (w\<lparr>mem := m2\<rparr>)"
    by (simp add: nil_world_iff)
qed


text \<open>The copies that \<^verbatim>\<open>SessionsSnapshot\<close> makes, one after the other.\<close>

lemma clone_all_effect:
  assumes "clone_all al m = (cs, m')" and "\<forall>e \<in> set al. allocated m (snd e)"
  shows "list_all2 (\<lambda>e c. c\<lparr>Thoughts := Thoughts (snd e)\<rparr> = snd e
                         \<and> thoughts_of m' c = thoughts_of m (snd e)) al cs
       \<and> (\<forall>c \<in> set cs. \<forall>a \<in> set (Thoughts c). brk m \<le> a \<and> a < brk m')
       \<and> (\<forall>i j. i < j \<and> j < length cs \<longrightarrow>
             (\<forall>a \<in> set (Thoughts (cs ! i)). \<forall>b \<in> set (Thoughts (cs ! j)). a < b))"
  using assms
proof (induction al arbitrary: m cs m')
  case Nil
  then show ?case by simp
next
  case (Cons e al)
  obtain k s where e: "e = (k, s)" by (cases e)
  obtain c m1 where a: "clone s m = (c, m1)" by fastforce
  obtain cs' m2 where b: "clone_all al m1 = (cs', m2)" by fastforce
  from Cons.prems(1) e a b have r: "cs = c # cs'" "m' = m2" by simp_all
  note ce = clone_effect [OF a]
  from Cons.prems(2) e have als: "allocated m s" by simp
  have al1: "\<forall>e \<in> set al. allocated m1 (snd e)"
    using Cons.prems(2) thoughts_of_extends [OF ce(3)] by simp
  note ih = Cons.IH [OF b al1]
  have
    ih1: "list_all2 (\<lambda>e c. c\<lparr>Thoughts := Thoughts (snd e)\<rparr> = snd e
                         \<and> thoughts_of m2 c = thoughts_of m1 (snd e)) al cs'"
    and ih2: "\<forall>c \<in> set cs'. \<forall>a \<in> set (Thoughts c). brk m1 \<le> a \<and> a < brk m2"
    and ih3: "\<forall>i j. i < j \<and> j < length cs' \<longrightarrow>
             (\<forall>a \<in> set (Thoughts (cs' ! i)). \<forall>b \<in> set (Thoughts (cs' ! j)). a < b)"
    by (rule ih [THEN conjunct1], rule ih [THEN conjunct2, THEN conjunct1],
        rule ih [THEN conjunct2, THEN conjunct2])
  have ext12: "mem_extends m1 m2" by (rule clone_all_extends [OF b])
  have 1: "c\<lparr>Thoughts := Thoughts s\<rparr> = s" using ce(1) by simp
  have 2: "thoughts_of m2 c = thoughts_of m s"
    using thoughts_of_extends [OF ext12 ce(4)] ce(5) [OF als] by simp
  have 3: "list_all2 (\<lambda>e c. c\<lparr>Thoughts := Thoughts (snd e)\<rparr> = snd e
                         \<and> thoughts_of m2 c = thoughts_of m (snd e)) al cs'"
  proof (rule list.rel_mono_strong [OF ih1])
    fix x y
    assume xs: "x \<in> set al" and h: "y\<lparr>Thoughts := Thoughts (snd x)\<rparr> = snd x
        \<and> thoughts_of m2 y = thoughts_of m1 (snd x)"
    from xs Cons.prems(2) have "allocated m (snd x)" by simp
    from thoughts_of_extends [OF ce(3) this] h
    show "y\<lparr>Thoughts := Thoughts (snd x)\<rparr> = snd x \<and> thoughts_of m2 y = thoughts_of m (snd x)"
      by simp
  qed
  have b12: "brk m \<le> brk m1" "brk m1 \<le> brk m2"
    using ce(3) ext12 by (simp_all add: mem_extends_def)
  have 4: "\<forall>a \<in> set (Thoughts c). brk m \<le> a \<and> a < brk m1"
    using ce(1,2) by simp
  have "\<forall>a \<in> set (Thoughts c). brk m \<le> a \<and> a < brk m2"
    using 4 b12 by fastforce
  moreover have "\<forall>d \<in> set cs'. \<forall>a \<in> set (Thoughts d). brk m \<le> a \<and> a < brk m2"
    using ih2 b12 by fastforce
  ultimately have 5: "\<forall>d \<in> set (c # cs'). \<forall>a \<in> set (Thoughts d). brk m \<le> a \<and> a < brk m2"
    by simp
  have 6: "\<forall>a \<in> set (Thoughts ((c # cs') ! i)). \<forall>b \<in> set (Thoughts ((c # cs') ! j)). a < b"
    if ij: "i < j" "j < length (c # cs')" for i j
  proof (cases i)
    case 0
    from ij 0 obtain j' where j: "j = Suc j'" "j' < length cs'" by (cases j) auto
    then have "cs' ! j' \<in> set cs'" by simp
    with ih2 have "\<forall>b \<in> set (Thoughts (cs' ! j')). brk m1 \<le> b" by blast
    moreover from 4 have "\<forall>a \<in> set (Thoughts c). a < brk m1" by blast
    ultimately have "\<forall>a \<in> set (Thoughts c). \<forall>b \<in> set (Thoughts (cs' ! j')). a < b"
      by fastforce
    then show ?thesis unfolding 0 j(1) by simp
  next
    case (Suc i')
    from ij Suc obtain j' where j: "j = Suc j'" "j' < length cs'" "i' < j'" by (cases j) auto
    with ih3 have "\<forall>a \<in> set (Thoughts (cs' ! i')). \<forall>b \<in> set (Thoughts (cs' ! j')). a < b"
      by blast
    then show ?thesis unfolding Suc j(1) by simp
  qed
  have 7: "list_all2 (\<lambda>e c. c\<lparr>Thoughts := Thoughts (snd e)\<rparr> = snd e
                         \<and> thoughts_of m2 c = thoughts_of m (snd e)) ((k, s) # al) (c # cs')"
    using 1 2 3 by simp
  from 6 have 8: "\<forall>i j. i < j \<and> j < length (c # cs') \<longrightarrow>
      (\<forall>a \<in> set (Thoughts ((c # cs') ! i)). \<forall>b \<in> set (Thoughts ((c # cs') ! j)). a < b)"
    by blast
  show ?case unfolding r e by (intro conjI 7 5 8)
qed

lemma clone_all_disjoint:
  assumes "\<forall>i j. i < j \<and> j < length cs \<longrightarrow>
             (\<forall>a \<in> set (Thoughts (cs ! i)). \<forall>b \<in> set (Thoughts (cs ! j)). (a::nat) < b)"
    and "i < length cs" and "j < length cs" and "i \<noteq> j"
  shows "set (Thoughts (cs ! j)) \<inter> set (Thoughts (cs ! i)) = {}"
proof (cases "i < j")
  case True
  with assms(1,3)
  have "\<forall>a \<in> set (Thoughts (cs ! i)). \<forall>b \<in> set (Thoughts (cs ! j)). a < b" by blast
  then have "x \<in> set (Thoughts (cs ! j)) \<Longrightarrow> x \<notin> set (Thoughts (cs ! i))" for x
    using less_irrefl by blast
  then show ?thesis by blast
next
  case False
  with assms(4) have "j < i" by simp
  with assms(1,2)
  have "\<forall>a \<in> set (Thoughts (cs ! j)). \<forall>b \<in> set (Thoughts (cs ! i)). a < b" by blast
  then have "x \<in> set (Thoughts (cs ! j)) \<Longrightarrow> x \<notin> set (Thoughts (cs ! i))" for x
    using less_irrefl by blast
  then show ?thesis by blast
qed

lemma SessionsSnapshot_fresh:
  assumes nw: "nil_world w"
  shows "\<exists>snaps w1.
      SessionsSnapshot w = (snaps, w1)
    \<and> store1 w1 = store1 w \<and> mem_extends (mem w) (mem w1)
    \<and> list_all2 (\<lambda>e c. c\<lparr>Thoughts := Thoughts (snd e)\<rparr> = snd e
                       \<and> thoughts_of (mem w1) c = thoughts_of (mem w) (snd e)) (store1 w) snaps
    \<and> (\<forall>c \<in> set snaps. \<forall>a \<in> set (Thoughts c). brk (mem w) \<le> a \<and> a < brk (mem w1))
    \<and> (\<forall>i j. i < length snaps \<and> j < length snaps \<and> i \<noteq> j \<longrightarrow>
          set (Thoughts (snaps ! j)) \<inter> set (Thoughts (snaps ! i)) = {})"
proof -
  obtain cs m1 where c: "clone_all (store1 w) (mem w) = (cs, m1)" by fastforce
  then have sn: "SessionsSnapshot w = (cs, w\<lparr>mem := m1\<rparr>)" by (simp add: SessionsSnapshot_def)
  from nw have "\<forall>e \<in> set (store1 w). allocated (mem w) (snd e)"
    by (auto simp: nil_world_def wf_world_def list_all_iff)
  from clone_all_effect [OF c this] have
    1: "list_all2 (\<lambda>e c. c\<lparr>Thoughts := Thoughts (snd e)\<rparr> = snd e
                       \<and> thoughts_of m1 c = thoughts_of (mem w) (snd e)) (store1 w) cs"
    and 2: "\<forall>c \<in> set cs. \<forall>a \<in> set (Thoughts c). brk (mem w) \<le> a \<and> a < brk m1"
    and 3: "\<forall>i j. i < j \<and> j < length cs \<longrightarrow>
             (\<forall>a \<in> set (Thoughts (cs ! i)). \<forall>b \<in> set (Thoughts (cs ! j)). a < b)"
    by blast+
  have 4: "\<forall>i j. i < length cs \<and> j < length cs \<and> i \<noteq> j \<longrightarrow>
          set (Thoughts (cs ! j)) \<inter> set (Thoughts (cs ! i)) = {}"
    using clone_all_disjoint [OF 3] by blast
  have e: "mem_extends (mem w) m1" by (rule clone_all_extends [OF c])
  let ?w1 = "w\<lparr>mem := m1\<rparr>"
  have s1: "store1 ?w1 = store1 w" and e1: "mem_extends (mem w) (mem ?w1)"
    using e by simp_all
  have l1: "list_all2 (\<lambda>e c. c\<lparr>Thoughts := Thoughts (snd e)\<rparr> = snd e
      \<and> thoughts_of (mem ?w1) c = thoughts_of (mem w) (snd e)) (store1 w) cs"
    using 1 by simp
  have l2: "\<forall>c \<in> set cs. \<forall>a \<in> set (Thoughts c). brk (mem w) \<le> a \<and> a < brk (mem ?w1)"
    using 2 by simp
  show ?thesis
    by (rule exI [of _ cs], rule exI [of _ ?w1]) (intro conjI sn s1 e1 l1 l2 4)
qed


lemma no_ParentIndex_values:
  "no_ParentIndex m c \<Longrightarrow> parent_values m c = replicate (length (Thoughts c)) None"
  by (auto simp: no_ParentIndex_def parent_values_def list_all_iff thoughts_of_def
      intro!: replicate_eqI)

lemma no_ParentIndex_write:
  "no_ParentIndex m c \<Longrightarrow> write_ParentIndex c i v m = None"
  by (auto simp: no_ParentIndex_def write_ParentIndex_def list_all_iff thoughts_of_def
      split: option.splits)

lemma world_mem_update:
  fixes w w1 :: world
  shows "store1 w1 = store1 w \<Longrightarrow> w1\<lparr>mem := m\<rparr> = w\<lparr>mem := m\<rparr>"
  by (cases w, cases w1) simp

lemma SessionSnapshot_independent:
  assumes nw: "nil_world w" and s: "map_of (store1 w) sid = Some s"
  shows "\<exists>snap w1.
      SessionSnapshot sid w = (Some snap, w1)
    \<and> store1 w1 = store1 w
    \<and> snap\<lparr>Thoughts := Thoughts s\<rparr> = s
    \<and> thoughts_of (mem w1) snap = thoughts_of (mem w) s
    \<and> (\<forall>i v. write_ParentIndex snap i v (mem w1) = None)
    \<and> (\<forall>ms m2. mutate snap ms (mem w1) = Some m2 \<longrightarrow>
          (\<forall>c. allocated (mem w) c \<longrightarrow> thoughts_of m2 c = thoughts_of (mem w) c)
        \<and> (\<forall>sid' s'. map_of (store1 w) sid' = Some s' \<longrightarrow>
              thoughts_of m2 s' = thoughts_of (mem w) s'
              \<and> parent_values m2 s' = parent_values (mem w) s')
        \<and> (\<exists>snap2 w3. SessionSnapshot sid (w1\<lparr>mem := m2\<rparr>) = (Some snap2, w3)
              \<and> snap2\<lparr>Thoughts := Thoughts s\<rparr> = s
              \<and> thoughts_of (mem w3) snap2 = thoughts_of (mem w) s
              \<and> parent_values (mem w3) snap2 = parent_values (mem w) s))"
proof -
  from SessionSnapshot_fresh [OF nw s] obtain snap w1 where
    sn: "SessionSnapshot sid w = (Some snap, w1)"
    and st: "store1 w1 = store1 w" and ext: "mem_extends (mem w) (mem w1)"
    and eq: "snap\<lparr>Thoughts := Thoughts s\<rparr> = s"
    and th: "thoughts_of (mem w1) snap = thoughts_of (mem w) s"
    and np: "no_ParentIndex (mem w1) snap"
    and fr: "\<forall>a \<in> set (Thoughts snap). brk (mem w) \<le> a \<and> a < brk (mem w1)"
    by blast
  from nw s have nps: "no_ParentIndex (mem w) s" by (simp add: nil_world_iff)
  have wp: "\<forall>i v. write_ParentIndex snap i v (mem w1) = None"
    using no_ParentIndex_write [OF np] by blast
  have fr': "\<forall>a \<in> set (Thoughts snap). brk (mem w) \<le> a" using fr by blast
  have mu: "(\<forall>c. allocated (mem w) c \<longrightarrow> thoughts_of m2 c = thoughts_of (mem w) c)
        \<and> (\<forall>sid' s'. map_of (store1 w) sid' = Some s' \<longrightarrow>
              thoughts_of m2 s' = thoughts_of (mem w) s'
              \<and> parent_values m2 s' = parent_values (mem w) s')
        \<and> (\<exists>snap2 w3. SessionSnapshot sid (w1\<lparr>mem := m2\<rparr>) = (Some snap2, w3)
              \<and> snap2\<lparr>Thoughts := Thoughts s\<rparr> = s
              \<and> thoughts_of (mem w3) snap2 = thoughts_of (mem w) s
              \<and> parent_values (mem w3) snap2 = parent_values (mem w) s)"
    if m: "mutate snap ms (mem w1) = Some m2" for ms m2
  proof -
    note ms = mutate_snapshot [OF nw ext fr' m]
    let ?w2 = "w\<lparr>mem := m2\<rparr>"
    have s2: "map_of (store1 ?w2) sid = Some s" using s by simp
    from ms(2) s have t2: "thoughts_of m2 s = thoughts_of (mem w) s" by blast
    from SessionSnapshot_fresh [OF ms(3) s2] obtain snap2 w3 where
      sn2: "SessionSnapshot sid ?w2 = (Some snap2, w3)"
      and eq2: "snap2\<lparr>Thoughts := Thoughts s\<rparr> = s"
      and th2: "thoughts_of (mem w3) snap2 = thoughts_of (mem ?w2) s"
      and np2: "no_ParentIndex (mem w3) snap2"
      by blast
    from th2 t2 have th3: "thoughts_of (mem w3) snap2 = thoughts_of (mem w) s" by simp
    from arg_cong [OF th3, of length] have "length (Thoughts snap2) = length (Thoughts s)"
      by (simp add: thoughts_of_def)
    with no_ParentIndex_values [OF np2] no_ParentIndex_values [OF nps]
    have pv: "parent_values (mem w3) snap2 = parent_values (mem w) s" by simp
    from sn2 have sn3: "SessionSnapshot sid (w1\<lparr>mem := m2\<rparr>) = (Some snap2, w3)"
      by (simp only: world_mem_update [OF st])
    have "\<exists>snap2 w3. SessionSnapshot sid (w1\<lparr>mem := m2\<rparr>) = (Some snap2, w3)
              \<and> snap2\<lparr>Thoughts := Thoughts s\<rparr> = s
              \<and> thoughts_of (mem w3) snap2 = thoughts_of (mem w) s
              \<and> parent_values (mem w3) snap2 = parent_values (mem w) s"
      by (rule exI [of _ snap2], rule exI [of _ w3]) (intro conjI sn3 eq2 th3 pv)
    with ms(1,2) show ?thesis by (intro conjI)
  qed
  then have mu': "\<forall>ms m2. mutate snap ms (mem w1) = Some m2 \<longrightarrow>
          (\<forall>c. allocated (mem w) c \<longrightarrow> thoughts_of m2 c = thoughts_of (mem w) c)
        \<and> (\<forall>sid' s'. map_of (store1 w) sid' = Some s' \<longrightarrow>
              thoughts_of m2 s' = thoughts_of (mem w) s'
              \<and> parent_values m2 s' = parent_values (mem w) s')
        \<and> (\<exists>snap2 w3. SessionSnapshot sid (w1\<lparr>mem := m2\<rparr>) = (Some snap2, w3)
              \<and> snap2\<lparr>Thoughts := Thoughts s\<rparr> = s
              \<and> thoughts_of (mem w3) snap2 = thoughts_of (mem w) s
              \<and> parent_values (mem w3) snap2 = parent_values (mem w) s)"
    by blast
  show ?thesis
    by (rule exI [of _ snap], rule exI [of _ w1]) (intro conjI sn st eq th wp mu')
qed


lemma SessionsSnapshot_independent:
  assumes nw: "nil_world w"
  shows "\<exists>snaps w1.
      SessionsSnapshot w = (snaps, w1)
    \<and> store1 w1 = store1 w
    \<and> list_all2 (\<lambda>e c. c\<lparr>Thoughts := Thoughts (snd e)\<rparr> = snd e
                       \<and> thoughts_of (mem w1) c = thoughts_of (mem w) (snd e)) (store1 w) snaps
    \<and> (\<forall>i ms m2. i < length snaps \<and> mutate (snaps ! i) ms (mem w1) = Some m2 \<longrightarrow>
          (\<forall>c. allocated (mem w) c \<longrightarrow> thoughts_of m2 c = thoughts_of (mem w) c)
        \<and> (\<forall>sid' s'. map_of (store1 w) sid' = Some s' \<longrightarrow>
              thoughts_of m2 s' = thoughts_of (mem w) s'
              \<and> parent_values m2 s' = parent_values (mem w) s')
        \<and> (\<forall>j < length snaps. j \<noteq> i \<longrightarrow>
              thoughts_of m2 (snaps ! j) = thoughts_of (mem w1) (snaps ! j))
        \<and> (\<exists>snaps2 w3. SessionsSnapshot (w1\<lparr>mem := m2\<rparr>) = (snaps2, w3)
              \<and> list_all2 (\<lambda>e c. c\<lparr>Thoughts := Thoughts (snd e)\<rparr> = snd e
                   \<and> thoughts_of (mem w3) c = thoughts_of (mem w) (snd e)) (store1 w) snaps2))"
proof -
  from SessionsSnapshot_fresh [OF nw] obtain snaps w1 where
    sn: "SessionsSnapshot w = (snaps, w1)"
    and st: "store1 w1 = store1 w" and ext: "mem_extends (mem w) (mem w1)"
    and rel: "list_all2 (\<lambda>e c. c\<lparr>Thoughts := Thoughts (snd e)\<rparr> = snd e
                       \<and> thoughts_of (mem w1) c = thoughts_of (mem w) (snd e)) (store1 w) snaps"
    and fr: "\<forall>c \<in> set snaps. \<forall>a \<in> set (Thoughts c). brk (mem w) \<le> a \<and> a < brk (mem w1)"
    and dj: "\<forall>i j. i < length snaps \<and> j < length snaps \<and> i \<noteq> j \<longrightarrow>
          set (Thoughts (snaps ! j)) \<inter> set (Thoughts (snaps ! i)) = {}"
    by blast
  from nw have als: "\<forall>e \<in> set (store1 w). allocated (mem w) (snd e)"
    by (auto simp: nil_world_def wf_world_def list_all_iff)
  have mu: "(\<forall>c. allocated (mem w) c \<longrightarrow> thoughts_of m2 c = thoughts_of (mem w) c)
        \<and> (\<forall>sid' s'. map_of (store1 w) sid' = Some s' \<longrightarrow>
              thoughts_of m2 s' = thoughts_of (mem w) s'
              \<and> parent_values m2 s' = parent_values (mem w) s')
        \<and> (\<forall>j < length snaps. j \<noteq> i \<longrightarrow>
              thoughts_of m2 (snaps ! j) = thoughts_of (mem w1) (snaps ! j))
        \<and> (\<exists>snaps2 w3. SessionsSnapshot (w1\<lparr>mem := m2\<rparr>) = (snaps2, w3)
              \<and> list_all2 (\<lambda>e c. c\<lparr>Thoughts := Thoughts (snd e)\<rparr> = snd e
                   \<and> thoughts_of (mem w3) c = thoughts_of (mem w) (snd e)) (store1 w) snaps2)"
    if i: "i < length snaps" and m: "mutate (snaps ! i) ms (mem w1) = Some m2" for i ms m2
  proof -
    from i have "snaps ! i \<in> set snaps" by simp
    with fr have fr': "\<forall>a \<in> set (Thoughts (snaps ! i)). brk (mem w) \<le> a" by blast
    note ms = mutate_snapshot [OF nw ext fr' m]
    have oth: "\<forall>j < length snaps. j \<noteq> i \<longrightarrow>
        thoughts_of m2 (snaps ! j) = thoughts_of (mem w1) (snaps ! j)"
    proof (intro allI impI)
      fix j assume j: "j < length snaps" and ne: "j \<noteq> i"
      from dj i j ne have "set (Thoughts (snaps ! j)) \<inter> set (Thoughts (snaps ! i)) = {}"
        by blast
      from mutate_other(1) [OF m this]
      show "thoughts_of m2 (snaps ! j) = thoughts_of (mem w1) (snaps ! j)" .
    qed
    let ?w2 = "w\<lparr>mem := m2\<rparr>"
    from SessionsSnapshot_fresh [OF ms(3)] obtain snaps2 w3 where
      sn2: "SessionsSnapshot ?w2 = (snaps2, w3)"
      and rel2: "list_all2 (\<lambda>e c. c\<lparr>Thoughts := Thoughts (snd e)\<rparr> = snd e
          \<and> thoughts_of (mem w3) c = thoughts_of (mem ?w2) (snd e)) (store1 ?w2) snaps2"
      by blast
    from rel2 have rel2': "list_all2 (\<lambda>e c. c\<lparr>Thoughts := Thoughts (snd e)\<rparr> = snd e
          \<and> thoughts_of (mem w3) c = thoughts_of m2 (snd e)) (store1 w) snaps2"
      by simp
    have rel3: "list_all2 (\<lambda>e c. c\<lparr>Thoughts := Thoughts (snd e)\<rparr> = snd e
          \<and> thoughts_of (mem w3) c = thoughts_of (mem w) (snd e)) (store1 w) snaps2"
    proof (rule list.rel_mono_strong [OF rel2'])
      fix x y
      assume xs: "x \<in> set (store1 w)" and h: "y\<lparr>Thoughts := Thoughts (snd x)\<rparr> = snd x
          \<and> thoughts_of (mem w3) y = thoughts_of m2 (snd x)"
      from xs als have "allocated (mem w) (snd x)" by blast
      with ms(1) have "thoughts_of m2 (snd x) = thoughts_of (mem w) (snd x)" by blast
      with h show "y\<lparr>Thoughts := Thoughts (snd x)\<rparr> = snd x
          \<and> thoughts_of (mem w3) y = thoughts_of (mem w) (snd x)"
        by simp
    qed
    from sn2 have sn3: "SessionsSnapshot (w1\<lparr>mem := m2\<rparr>) = (snaps2, w3)"
      by (simp only: world_mem_update [OF st])
    have "\<exists>snaps2 w3. SessionsSnapshot (w1\<lparr>mem := m2\<rparr>) = (snaps2, w3)
              \<and> list_all2 (\<lambda>e c. c\<lparr>Thoughts := Thoughts (snd e)\<rparr> = snd e
                   \<and> thoughts_of (mem w3) c = thoughts_of (mem w) (snd e)) (store1 w) snaps2"
      by (rule exI [of _ snaps2], rule exI [of _ w3]) (intro conjI sn3 rel3)
    with ms(1,2) oth show ?thesis by (intro conjI)
  qed
  then have mu': "\<forall>i ms m2. i < length snaps \<and> mutate (snaps ! i) ms (mem w1) = Some m2 \<longrightarrow>
          (\<forall>c. allocated (mem w) c \<longrightarrow> thoughts_of m2 c = thoughts_of (mem w) c)
        \<and> (\<forall>sid' s'. map_of (store1 w) sid' = Some s' \<longrightarrow>
              thoughts_of m2 s' = thoughts_of (mem w) s'
              \<and> parent_values m2 s' = parent_values (mem w) s')
        \<and> (\<forall>j < length snaps. j \<noteq> i \<longrightarrow>
              thoughts_of m2 (snaps ! j) = thoughts_of (mem w1) (snaps ! j))
        \<and> (\<exists>snaps2 w3. SessionsSnapshot (w1\<lparr>mem := m2\<rparr>) = (snaps2, w3)
              \<and> list_all2 (\<lambda>e c. c\<lparr>Thoughts := Thoughts (snd e)\<rparr> = snd e
                   \<and> thoughts_of (mem w3) c = thoughts_of (mem w) (snd e)) (store1 w) snaps2)"
    by blast
  show ?thesis
    by (rule exI [of _ snaps], rule exI [of _ w1]) (intro conjI sn st rel mu')
qed

text \<open>
  \<^verbatim>\<open>ReviewThinking\<close> and \<^verbatim>\<open>ThinkingHistory\<close> hand out what they make of the
  snapshot they take, and leave the world as the snapshot left it.
\<close>

lemma ReviewThinking_snapshot:
  "SessionSnapshot sid w = (Some snap, w1) \<Longrightarrow>
     ReviewThinking \<lparr>SessionID_r = sid\<rparr> w = (Inr (review_text (mem w1) snap), w1)"
  by (simp add: ReviewThinking_def)

lemma ThinkingHistory_snapshot:
  "SessionSnapshot sid w = (Some snap, w1) \<Longrightarrow> sid \<noteq> ''sessions'' \<Longrightarrow>
     ThinkingHistory (Some (''thinking'', sid)) w = (Inr (OneSession snap), w1)"
  by (simp add: ThinkingHistory_def)

lemma ThinkingHistory_snapshots:
  "SessionsSnapshot w = (snaps, w1) \<Longrightarrow>
     ThinkingHistory (Some (''thinking'', ''sessions'')) w = (Inr (AllSessions snaps), w1)"
  by (simp add: ThinkingHistory_def)


subsection \<open>Independence of snapshots\<close>

text \<open>
  \<^verbatim>\<open>deepCopyThoughts\<close> copies the \<^verbatim>\<open>ParentIndex\<close> pointer of a thought, not the
  int behind it. In a store that holds a thought with a \<^verbatim>\<open>ParentIndex\<close>, which no
  handler builds, an assignment through the \<^verbatim>\<open>ParentIndex\<close> of a snapshot is seen
  through the stored thought and through the next snapshot: the hypothesis of the
  theorem below is needed.
\<close>

lemma seeded_ParentIndex_shared:
  "\<exists>snap w1 m2 snap2 w3.
      SessionSnapshot ''s'' ex_world = (Some snap, w1)
    \<and> parent_values (mem ex_world) ex_session = [Some 1, None]
    \<and> parent_values (mem w1) snap = [Some 1, None]
    \<and> write_ParentIndex snap 0 99 (mem w1) = Some m2
    \<and> map_of (store1 (w1\<lparr>mem := m2\<rparr>)) ''s'' = Some ex_session
    \<and> parent_values m2 ex_session = [Some 99, None]
    \<and> SessionSnapshot ''s'' (w1\<lparr>mem := m2\<rparr>) = (Some snap2, w3)
    \<and> parent_values (mem w3) snap2 = [Some 99, None]"
  by (simp add: SessionSnapshot_def clone_def new_Thought_def write_ParentIndex_def
      parent_values_def thoughts_of_def ex_world_def ex_session_def ex_mem_def)


text \<open>
  C9. In a store that the handlers have built from the empty store, every read
  operation returns independent copies. \<^verbatim>\<open>SessionSnapshot\<close> of a session that is
  present returns a session with the fields and the thoughts of the stored one and
  leaves the store as it is; ReviewThinking and ThinkingHistory are built on it. No
  thought of the copy has a \<^verbatim>\<open>ParentIndex\<close>, so an assignment through one panics
  and writes nothing. Whatever sequence of assignments the caller makes through the
  copy (to the fields of its thoughts, and through a \<^verbatim>\<open>ParentIndex\<close> that the caller
  has set itself), every thought object that existed when the copy was taken is as it
  was, so every stored session and every copy returned before; what is read through
  the \<^verbatim>\<open>ParentIndex\<close> of a stored thought is as it was; and a snapshot fetched
  afterwards has the fields and the thoughts of the stored session, not those of the
  caller. The same holds of each of the copies that \<^verbatim>\<open>SessionsSnapshot\<close> returns, and
  assignments through one of them leave the others as they are.
\<close>

theorem snapshot_independent:
  assumes "run cs world0 = Some w"
  shows "(\<forall>sid s. map_of (store1 w) sid = Some s \<longrightarrow>
          (\<exists>snap w1.
              SessionSnapshot sid w = (Some snap, w1)
            \<and> ReviewThinking \<lparr>SessionID_r = sid\<rparr> w = (Inr (review_text (mem w1) snap), w1)
            \<and> (sid \<noteq> ''sessions'' \<longrightarrow>
                 ThinkingHistory (Some (''thinking'', sid)) w = (Inr (OneSession snap), w1))
            \<and> store1 w1 = store1 w
            \<and> snap\<lparr>Thoughts := Thoughts s\<rparr> = s
            \<and> thoughts_of (mem w1) snap = thoughts_of (mem w) s
            \<and> (\<forall>i v. write_ParentIndex snap i v (mem w1) = None)
            \<and> (\<forall>ms m2. mutate snap ms (mem w1) = Some m2 \<longrightarrow>
                  (\<forall>c. allocated (mem w) c \<longrightarrow> thoughts_of m2 c = thoughts_of (mem w) c)
                \<and> (\<forall>sid' s'. map_of (store1 w) sid' = Some s' \<longrightarrow>
                      thoughts_of m2 s' = thoughts_of (mem w) s'
                      \<and> parent_values m2 s' = parent_values (mem w) s')
                \<and> (\<exists>snap2 w3. SessionSnapshot sid (w1\<lparr>mem := m2\<rparr>) = (Some snap2, w3)
                      \<and> snap2\<lparr>Thoughts := Thoughts s\<rparr> = s
                      \<and> thoughts_of (mem w3) snap2 = thoughts_of (mem w) s
                      \<and> parent_values (mem w3) snap2 = parent_values (mem w) s))))
       \<and> (\<exists>snaps w1.
              SessionsSnapshot w = (snaps, w1)
            \<and> ThinkingHistory (Some (''thinking'', ''sessions'')) w = (Inr (AllSessions snaps), w1)
            \<and> store1 w1 = store1 w
            \<and> list_all2 (\<lambda>e c. c\<lparr>Thoughts := Thoughts (snd e)\<rparr> = snd e
                 \<and> thoughts_of (mem w1) c = thoughts_of (mem w) (snd e)) (store1 w) snaps
            \<and> (\<forall>i ms m2. i < length snaps \<and> mutate (snaps ! i) ms (mem w1) = Some m2 \<longrightarrow>
                  (\<forall>c. allocated (mem w) c \<longrightarrow> thoughts_of m2 c = thoughts_of (mem w) c)
                \<and> (\<forall>sid' s'. map_of (store1 w) sid' = Some s' \<longrightarrow>
                      thoughts_of m2 s' = thoughts_of (mem w) s'
                      \<and> parent_values m2 s' = parent_values (mem w) s')
                \<and> (\<forall>j < length snaps. j \<noteq> i \<longrightarrow>
                      thoughts_of m2 (snaps ! j) = thoughts_of (mem w1) (snaps ! j))
                \<and> (\<exists>snaps2 w3. SessionsSnapshot (w1\<lparr>mem := m2\<rparr>) = (snaps2, w3)
                      \<and> list_all2 (\<lambda>e c. c\<lparr>Thoughts := Thoughts (snd e)\<rparr> = snd e
                           \<and> thoughts_of (mem w3) c = thoughts_of (mem w) (snd e))
                         (store1 w) snaps2)))"
proof (rule conjI)
  from run_nil [OF nil_world_start, of cs] assms have nw: "nil_world w" by simp
  show "\<forall>sid s. map_of (store1 w) sid = Some s \<longrightarrow>
          (\<exists>snap w1.
              SessionSnapshot sid w = (Some snap, w1)
            \<and> ReviewThinking \<lparr>SessionID_r = sid\<rparr> w = (Inr (review_text (mem w1) snap), w1)
            \<and> (sid \<noteq> ''sessions'' \<longrightarrow>
                 ThinkingHistory (Some (''thinking'', sid)) w = (Inr (OneSession snap), w1))
            \<and> store1 w1 = store1 w
            \<and> snap\<lparr>Thoughts := Thoughts s\<rparr> = s
            \<and> thoughts_of (mem w1) snap = thoughts_of (mem w) s
            \<and> (\<forall>i v. write_ParentIndex snap i v (mem w1) = None)
            \<and> (\<forall>ms m2. mutate snap ms (mem w1) = Some m2 \<longrightarrow>
                  (\<forall>c. allocated (mem w) c \<longrightarrow> thoughts_of m2 c = thoughts_of (mem w) c)
                \<and> (\<forall>sid' s'. map_of (store1 w) sid' = Some s' \<longrightarrow>
                      thoughts_of m2 s' = thoughts_of (mem w) s'
                      \<and> parent_values m2 s' = parent_values (mem w) s')
                \<and> (\<exists>snap2 w3. SessionSnapshot sid (w1\<lparr>mem := m2\<rparr>) = (Some snap2, w3)
                      \<and> snap2\<lparr>Thoughts := Thoughts s\<rparr> = s
                      \<and> thoughts_of (mem w3) snap2 = thoughts_of (mem w) s
                      \<and> parent_values (mem w3) snap2 = parent_values (mem w) s)))"
  proof (intro allI impI)
    fix sid s assume s: "map_of (store1 w) sid = Some s"
    from SessionSnapshot_independent [OF nw s] obtain snap w1 where
      sn: "SessionSnapshot sid w = (Some snap, w1)"
      and rest: "store1 w1 = store1 w
        \<and> snap\<lparr>Thoughts := Thoughts s\<rparr> = s
        \<and> thoughts_of (mem w1) snap = thoughts_of (mem w) s
        \<and> (\<forall>i v. write_ParentIndex snap i v (mem w1) = None)
        \<and> (\<forall>ms m2. mutate snap ms (mem w1) = Some m2 \<longrightarrow>
              (\<forall>c. allocated (mem w) c \<longrightarrow> thoughts_of m2 c = thoughts_of (mem w) c)
            \<and> (\<forall>sid' s'. map_of (store1 w) sid' = Some s' \<longrightarrow>
                  thoughts_of m2 s' = thoughts_of (mem w) s'
                  \<and> parent_values m2 s' = parent_values (mem w) s')
            \<and> (\<exists>snap2 w3. SessionSnapshot sid (w1\<lparr>mem := m2\<rparr>) = (Some snap2, w3)
                  \<and> snap2\<lparr>Thoughts := Thoughts s\<rparr> = s
                  \<and> thoughts_of (mem w3) snap2 = thoughts_of (mem w) s
                  \<and> parent_values (mem w3) snap2 = parent_values (mem w) s))"
      by blast
    have rv: "ReviewThinking \<lparr>SessionID_r = sid\<rparr> w = (Inr (review_text (mem w1) snap), w1)"
      by (rule ReviewThinking_snapshot [OF sn])
    have th: "sid \<noteq> ''sessions'' \<longrightarrow>
        ThinkingHistory (Some (''thinking'', sid)) w = (Inr (OneSession snap), w1)"
      using ThinkingHistory_snapshot [OF sn] by blast
    show "\<exists>snap w1.
              SessionSnapshot sid w = (Some snap, w1)
            \<and> ReviewThinking \<lparr>SessionID_r = sid\<rparr> w = (Inr (review_text (mem w1) snap), w1)
            \<and> (sid \<noteq> ''sessions'' \<longrightarrow>
                 ThinkingHistory (Some (''thinking'', sid)) w = (Inr (OneSession snap), w1))
            \<and> store1 w1 = store1 w
            \<and> snap\<lparr>Thoughts := Thoughts s\<rparr> = s
            \<and> thoughts_of (mem w1) snap = thoughts_of (mem w) s
            \<and> (\<forall>i v. write_ParentIndex snap i v (mem w1) = None)
            \<and> (\<forall>ms m2. mutate snap ms (mem w1) = Some m2 \<longrightarrow>
                  (\<forall>c. allocated (mem w) c \<longrightarrow> thoughts_of m2 c = thoughts_of (mem w) c)
                \<and> (\<forall>sid' s'. map_of (store1 w) sid' = Some s' \<longrightarrow>
                      thoughts_of m2 s' = thoughts_of (mem w) s'
                      \<and> parent_values m2 s' = parent_values (mem w) s')
                \<and> (\<exists>snap2 w3. SessionSnapshot sid (w1\<lparr>mem := m2\<rparr>) = (Some snap2, w3)
                      \<and> snap2\<lparr>Thoughts := Thoughts s\<rparr> = s
                      \<and> thoughts_of (mem w3) snap2 = thoughts_of (mem w) s
                      \<and> parent_values (mem w3) snap2 = parent_values (mem w) s))"
      by (rule exI [of _ snap], rule exI [of _ w1]) (intro conjI sn rv th rest)
  qed
next
  from run_nil [OF nil_world_start, of cs] assms have nw: "nil_world w" by simp
  from SessionsSnapshot_independent [OF nw] obtain snaps w1 where
    sn: "SessionsSnapshot w = (snaps, w1)"
    and rest: "store1 w1 = store1 w
      \<and> list_all2 (\<lambda>e c. c\<lparr>Thoughts := Thoughts (snd e)\<rparr> = snd e
           \<and> thoughts_of (mem w1) c = thoughts_of (mem w) (snd e)) (store1 w) snaps
      \<and> (\<forall>i ms m2. i < length snaps \<and> mutate (snaps ! i) ms (mem w1) = Some m2 \<longrightarrow>
            (\<forall>c. allocated (mem w) c \<longrightarrow> thoughts_of m2 c = thoughts_of (mem w) c)
          \<and> (\<forall>sid' s'. map_of (store1 w) sid' = Some s' \<longrightarrow>
                thoughts_of m2 s' = thoughts_of (mem w) s'
                \<and> parent_values m2 s' = parent_values (mem w) s')
          \<and> (\<forall>j < length snaps. j \<noteq> i \<longrightarrow>
                thoughts_of m2 (snaps ! j) = thoughts_of (mem w1) (snaps ! j))
          \<and> (\<exists>snaps2 w3. SessionsSnapshot (w1\<lparr>mem := m2\<rparr>) = (snaps2, w3)
                \<and> list_all2 (\<lambda>e c. c\<lparr>Thoughts := Thoughts (snd e)\<rparr> = snd e
                     \<and> thoughts_of (mem w3) c = thoughts_of (mem w) (snd e))
                   (store1 w) snaps2))"
    by blast
  have th: "ThinkingHistory (Some (''thinking'', ''sessions'')) w = (Inr (AllSessions snaps), w1)"
    by (rule ThinkingHistory_snapshots [OF sn])
  show "\<exists>snaps w1.
              SessionsSnapshot w = (snaps, w1)
            \<and> ThinkingHistory (Some (''thinking'', ''sessions'')) w = (Inr (AllSessions snaps), w1)
            \<and> store1 w1 = store1 w
            \<and> list_all2 (\<lambda>e c. c\<lparr>Thoughts := Thoughts (snd e)\<rparr> = snd e
                 \<and> thoughts_of (mem w1) c = thoughts_of (mem w) (snd e)) (store1 w) snaps
            \<and> (\<forall>i ms m2. i < length snaps \<and> mutate (snaps ! i) ms (mem w1) = Some m2 \<longrightarrow>
                  (\<forall>c. allocated (mem w) c \<longrightarrow> thoughts_of m2 c = thoughts_of (mem w) c)
                \<and> (\<forall>sid' s'. map_of (store1 w) sid' = Some s' \<longrightarrow>
                      thoughts_of m2 s' = thoughts_of (mem w) s'
                      \<and> parent_values m2 s' = parent_values (mem w) s')
                \<and> (\<forall>j < length snaps. j \<noteq> i \<longrightarrow>
                      thoughts_of m2 (snaps ! j) = thoughts_of (mem w1) (snaps ! j))
                \<and> (\<exists>snaps2 w3. SessionsSnapshot (w1\<lparr>mem := m2\<rparr>) = (snaps2, w3)
                      \<and> list_all2 (\<lambda>e c. c\<lparr>Thoughts := Thoughts (snd e)\<rparr> = snd e
                           \<and> thoughts_of (mem w3) c = thoughts_of (mem w) (snd e))
                         (store1 w) snaps2))"
    by (rule exI [of _ snaps], rule exI [of _ w1]) (intro conjI sn th rest)
qed


theorem snapshot_independent_witness:
  "\<exists>w s snap w1 m2.
      run [ex_start, append_call (ex_append_args ''a'' None, ex_now),
           append_call (ex_append_args ''b'' None, ex_now)] world0 = Some w
    \<and> map_of (store1 w) ''s'' = Some s
    \<and> thoughts_of (mem w) s =
        [\<lparr>Index = 1, Content = ''a'', Created = 100, Revised = False, ParentIndex = None\<rparr>,
         \<lparr>Index = 2, Content = ''b'', Created = 100, Revised = False, ParentIndex = None\<rparr>]
    \<and> SessionSnapshot ''s'' w = (Some snap, w1)
    \<and> write_ParentIndex snap 0 99 (mem w1) = None
    \<and> mutate snap
         [SetThought 0 \<lparr>Index = 9, Content = ''z'', Created = 0, Revised = True,
                        ParentIndex = Some 7\<rparr>,
          SetParentIndex 0 99] (mem w1) = Some m2
    \<and> Content (thoughts_of m2 snap ! 0) = ''z''
    \<and> parent_values m2 snap = [Some 99, None]
    \<and> thoughts_of m2 s =
        [\<lparr>Index = 1, Content = ''a'', Created = 100, Revised = False, ParentIndex = None\<rparr>,
         \<lparr>Index = 2, Content = ''b'', Created = 100, Revised = False, ParentIndex = None\<rparr>]
    \<and> parent_values m2 s = [None, None]
    \<and> (\<exists>snap2 w3. SessionSnapshot ''s'' (w1\<lparr>mem := m2\<rparr>) = (Some snap2, w3)
          \<and> snap2\<lparr>Thoughts := Thoughts s\<rparr> = s
          \<and> thoughts_of (mem w3) snap2 =
              [\<lparr>Index = 1, Content = ''a'', Created = 100, Revised = False, ParentIndex = None\<rparr>,
               \<lparr>Index = 2, Content = ''b'', Created = 100, Revised = False, ParentIndex = None\<rparr>]
          \<and> parent_values (mem w3) snap2 = [None, None])"
proof -
  let ?cs = "[ex_start, append_call (ex_append_args ''a'' None, ex_now),
              append_call (ex_append_args ''b'' None, ex_now)]"
  let ?t1 = "\<lparr>Index = 1, Content = ''a'', Created = 100, Revised = False, ParentIndex = None\<rparr>"
  let ?t2 = "\<lparr>Index = 2, Content = ''b'', Created = 100, Revised = False, ParentIndex = None\<rparr>"
  let ?t = "\<lparr>Index = 9, Content = ''z'', Created = 0, Revised = True, ParentIndex = Some 7\<rparr>"
  have "map_option (\<lambda>w. map_option (thoughts_of (mem w)) (map_of (store1 w) ''s'')) (run ?cs world0)
      = Some (Some [?t1, ?t2])"
    by code_simp
  then obtain w s where r: "run ?cs world0 = Some w" and s: "map_of (store1 w) ''s'' = Some s"
    and t: "thoughts_of (mem w) s = [?t1, ?t2]"
    by auto
  from snapshot_independent [OF r] s obtain snap w1 where
    sn: "SessionSnapshot ''s'' w = (Some snap, w1)"
    and th: "thoughts_of (mem w1) snap = thoughts_of (mem w) s"
    and wp: "\<forall>i v. write_ParentIndex snap i v (mem w1) = None"
    and mu: "\<forall>ms m2. mutate snap ms (mem w1) = Some m2 \<longrightarrow>
          (\<forall>c. allocated (mem w) c \<longrightarrow> thoughts_of m2 c = thoughts_of (mem w) c)
        \<and> (\<forall>sid' s'. map_of (store1 w) sid' = Some s' \<longrightarrow>
              thoughts_of m2 s' = thoughts_of (mem w) s'
              \<and> parent_values m2 s' = parent_values (mem w) s')
        \<and> (\<exists>snap2 w3. SessionSnapshot ''s'' (w1\<lparr>mem := m2\<rparr>) = (Some snap2, w3)
              \<and> snap2\<lparr>Thoughts := Thoughts s\<rparr> = s
              \<and> thoughts_of (mem w3) snap2 = thoughts_of (mem w) s
              \<and> parent_values (mem w3) snap2 = parent_values (mem w) s)"
    by blast
  from th t have "map (thought_at (mem w1)) (Thoughts snap) = [?t1, ?t2]"
    by (simp add: thoughts_of_def)
  then obtain a b where ab: "Thoughts snap = [a, b]"
    and ta: "thought_at (mem w1) a = ?t1" and tb: "thought_at (mem w1) b = ?t2"
    by (auto simp: map_eq_Cons_conv)
  from ta tb have ne: "a \<noteq> b" by auto
  define m2 where "m2 = (mem w1)\<lparr>thought_at := (thought_at (mem w1))(a := ?t),
                                 int_at := (int_at (mem w1))(7 := 99)\<rparr>"
  have m: "mutate snap [SetThought 0 ?t, SetParentIndex 0 99] (mem w1) = Some m2"
    by (simp add: write_Thought_def write_ParentIndex_def ab m2_def)
  have c: "Content (thoughts_of m2 snap ! 0) = ''z''"
    by (simp add: thoughts_of_def ab m2_def)
  have pv: "parent_values m2 snap = [Some 99, None]"
    using tb ne by (simp add: parent_values_def thoughts_of_def ab m2_def)
  from t have pw: "parent_values (mem w) s = [None, None]"
    by (simp add: parent_values_def)
  from mu m s obtain snap2 w3 where
    1: "thoughts_of m2 s = thoughts_of (mem w) s"
    and 2: "parent_values m2 s = parent_values (mem w) s"
    and 3: "SessionSnapshot ''s'' (w1\<lparr>mem := m2\<rparr>) = (Some snap2, w3)"
    and 4: "snap2\<lparr>Thoughts := Thoughts s\<rparr> = s"
    and 5: "thoughts_of (mem w3) snap2 = thoughts_of (mem w) s"
    and 6: "parent_values (mem w3) snap2 = parent_values (mem w) s"
    by blast
  have e: "\<exists>snap2 w3. SessionSnapshot ''s'' (w1\<lparr>mem := m2\<rparr>) = (Some snap2, w3)
          \<and> snap2\<lparr>Thoughts := Thoughts s\<rparr> = s
          \<and> thoughts_of (mem w3) snap2 = [?t1, ?t2]
          \<and> parent_values (mem w3) snap2 = [None, None]"
    by (rule exI [of _ snap2], rule exI [of _ w3])
       (intro conjI 3 4 5 [unfolded t] 6 [unfolded pw])
  show ?thesis
    by (rule exI [of _ w], rule exI [of _ s], rule exI [of _ snap], rule exI [of _ w1],
        rule exI [of _ m2])
       (intro conjI r s t sn wp [rule_format] m c pv 1 [unfolded t] 2 [unfolded pw] e)
qed

end
